theory Spec2Isabelle
  imports Main
begin

section \<open>The web crawler of \<open>web-crawler/crawler.go\<close>\<close>

text \<open>
  The program is a concurrent, depth-bounded crawler. Its shared state is a
  \<open>SafeCache\<close> (a visited map and a counter of goroutines, every method a critical
  section of one mutex), an unbuffered channel of \<open>FetchResult\<close> and the standard output.
  One goroutine runs \<open>crawl\<close> per discovered url; \<open>Crawl\<close> starts the first one and
  drains the channel until it is closed.

  Every access to shared memory is a method of \<open>SafeCache\<close> under its mutex or a channel
  operation, so an execution is an interleaving of these atomic operations. The model is
  a step function: given the actor that moves next (the main goroutine or the i-th
  \<open>crawl\<close> goroutine), it returns the next state, or \<open>None\<close> when that actor cannot move.
  A schedule is a list of actors. A computation on locals only (a test, the construction
  of the result) is part of the step of the shared operation next to it.

  What ends the process is part of the model: a panic (\<open>close\<close> of a closed channel, a
  send on a closed channel) and the return of \<open>main\<close>; after either, no actor moves. A
  state in which \<open>main\<close> waits in its receive and no goroutine can move is the deadlock
  the Go runtime reports as a fatal error.

  Integers: \<open>depth\<close> and \<open>routine\<close> are Go \<open>int\<close> (64 bit). They are modelled as
  \<open>int\<close>: \<open>depth - 1\<close> is computed only where \<open>depth > 0\<close>, and \<open>routine\<close> moves by one
  per spawned goroutine, so a wrap-around would need \<open>2^63\<close> goroutines.
\<close>

subsection \<open>The Fetcher interface\<close>

text \<open>
  \<open>Fetch(url) (body string, urls []string, err error)\<close>. An error is modelled by its
  message, \<open>None\<close> being \<open>nil\<close>; a nil slice and an empty slice are both \<open>[]\<close> (the
  program only ranges over the slice). A fetcher is a function of the url: the interface
  is used with no state of its own.
\<close>

type_synonym Fetcher = "string \<Rightarrow> string \<times> string list \<times> string option"

subsection \<open>SafeCache\<close>

record SafeCache =
  visited :: "string \<rightharpoonup> bool"
  routine :: int

text \<open>Line 104: \<open>&SafeCache{visited: make(map[string]bool), routine: 0}\<close>.\<close>

definition new_SafeCache :: SafeCache where
  "new_SafeCache = \<lparr>visited = Map.empty, routine = 0\<rparr>"

definition Visited :: "SafeCache \<Rightarrow> string \<Rightarrow> SafeCache" where
  "Visited c u = c\<lparr>visited := (visited c)(u \<mapsto> True)\<rparr>"

text \<open>Reading a missing key of a \<open>map[string]bool\<close> gives \<open>false\<close> and inserts nothing.\<close>

definition IsVisited :: "SafeCache \<Rightarrow> string \<Rightarrow> bool" where
  "IsVisited c u = (case visited c u of Some b \<Rightarrow> b | None \<Rightarrow> False)"

definition AddRoutine :: "SafeCache \<Rightarrow> SafeCache" where
  "AddRoutine c = c\<lparr>routine := routine c + 1\<rparr>"

definition DoneRoutine :: "SafeCache \<Rightarrow> SafeCache" where
  "DoneRoutine c = c\<lparr>routine := routine c - 1\<rparr>"

definition GetRoutineNum :: "SafeCache \<Rightarrow> int" where
  "GetRoutineNum c = routine c"

text \<open>
  A call of a method of the tracker. The methods that return a value leave the tracker
  as it is; \<open>apply_call\<close> is the effect of a call on the tracker.
\<close>

datatype cache_call =
  CallVisited string | CallIsVisited string | CallAddRoutine | CallDoneRoutine
  | CallGetRoutineNum

fun apply_call :: "SafeCache \<Rightarrow> cache_call \<Rightarrow> SafeCache" where
  "apply_call c (CallVisited u) = Visited c u"
| "apply_call c (CallIsVisited u) = c"
| "apply_call c CallAddRoutine = AddRoutine c"
| "apply_call c CallDoneRoutine = DoneRoutine c"
| "apply_call c CallGetRoutineNum = c"

definition apply_calls :: "SafeCache \<Rightarrow> cache_call list \<Rightarrow> SafeCache" where
  "apply_calls c cs = foldl apply_call c cs"

subsection \<open>The bundled fakeFetcher\<close>

record fakeResult =
  fr_body :: string
  fr_urls :: "string list"

text \<open>
  \<open>fakeFetcher\<close> is \<open>map[string]*fakeResult\<close>. The only value of this type the program
  builds is \<open>fetcher\<close>, whose entries are all non-nil pointers, so a value is modelled as
  a map to the results themselves.
\<close>

type_synonym fakeFetcher = "string \<rightharpoonup> fakeResult"

definition fakeFetcher_Fetch :: "fakeFetcher \<Rightarrow> Fetcher" where
  "fakeFetcher_Fetch f u =
     (case f u of
        Some res \<Rightarrow> (fr_body res, fr_urls res, None)
      | None \<Rightarrow> ('''', [], Some (''not found: '' @ u)))"

definition fetcher_entries :: "(string \<times> fakeResult) list" where
  "fetcher_entries =
     [(''https://golang.org/'',
        \<lparr>fr_body = ''The Go Programming Language'',
         fr_urls = [''https://golang.org/pkg/'', ''https://golang.org/cmd/'']\<rparr>),
      (''https://golang.org/pkg/'',
        \<lparr>fr_body = ''Packages'',
         fr_urls = [''https://golang.org/'', ''https://golang.org/cmd/'',
                    ''https://golang.org/pkg/fmt/'', ''https://golang.org/pkg/os/'']\<rparr>),
      (''https://golang.org/pkg/fmt/'',
        \<lparr>fr_body = ''Package fmt'',
         fr_urls = [''https://golang.org/'', ''https://golang.org/pkg/'']\<rparr>),
      (''https://golang.org/pkg/os/'',
        \<lparr>fr_body = ''Package os'',
         fr_urls = [''https://golang.org/'', ''https://golang.org/pkg/'']\<rparr>)]"

definition fetcher :: fakeFetcher where
  "fetcher = map_of fetcher_entries"

subsection \<open>FetchResult, goroutine frames and the program state\<close>

record FetchResult =
  url :: string
  body :: string
  err :: "string option"

text \<open>
  The program points of \<open>crawl\<close>, named by source line. \<open>L72\<close> and \<open>L91\<close> are the two
  calls of \<open>chanCloseFunc\<close> (the read of the counter at line 61 and its test), \<open>L62\<close> is
  \<open>close(ch)\<close> inside it, \<open>L83\<close> is the head of the range loop.
\<close>

datatype pc =
  L57 | L66 | L67 | L70 | L71 | L72 | L81 | L83 | L84 | L85 | L86 | L90 | L91 | L62
  | Returned

text \<open>
  The frame of one \<open>crawl\<close> goroutine: its parameters \<open>url\<close> and \<open>depth\<close>, its locals
  \<open>body\<close>, \<open>urls\<close> (the part of the slice the range loop has not reached yet), \<open>err\<close>
  and the loop variable \<open>u\<close>, and its program point.
\<close>

record frame =
  f_url :: string
  f_depth :: int
  f_body :: string
  f_urls :: "string list"
  f_err :: "string option"
  f_u :: string
  f_pc :: pc

definition new_frame :: "string \<Rightarrow> int \<Rightarrow> frame" where
  "new_frame u d =
     \<lparr>f_url = u, f_depth = d, f_body = '''', f_urls = [], f_err = None, f_u = '''',
      f_pc = L57\<rparr>"

text \<open>
  The main goroutine inside \<open>Crawl\<close>: blocked in the receive of \<open>range ch\<close> (line 111),
  holding a received result it is about to print (line 112), or returned (line 114),
  which ends the process.
\<close>

datatype main_pc = M111 | M112 FetchResult | M114

text \<open>
  What is written to the standard output: \<open>fmt.Printf\<close> of line 112, with
  arguments \<open>r.url\<close> and \<open>r.body\<close>,
  as \<open>Found url body\<close> and \<open>fmt.Println(err)\<close> as \<open>ErrLine message\<close>.
\<close>

datatype event = Found string string | ErrLine string

text \<open>
  \<open>sent\<close> is the sequence of values handed over the channel so far; \<open>panic\<close> is
  set when a goroutine panics, which ends the process.
\<close>

record state =
  cache :: SafeCache
  closed :: bool
  sent :: "FetchResult list"
  threads :: "frame list"
  mainpc :: main_pc
  stdout :: "event list"
  panic :: "string option"

datatype actor = Main | Unit nat

subsection \<open>One step of a \<open>crawl\<close> goroutine\<close>

definition set_frame :: "state \<Rightarrow> nat \<Rightarrow> frame \<Rightarrow> state" where
  "set_frame s i fr = s\<lparr>threads := (threads s)[i := fr]\<rparr>"

text \<open>Lines 77 to 80: the result a frame sends.\<close>

definition result_of :: "frame \<Rightarrow> FetchResult" where
  "result_of fr = \<lparr>url = f_url fr, body = f_body fr, err = f_err fr\<rparr>"

text \<open>Line 61: \<open>if n := cache.GetRoutineNum(); n <= 0\<close>.\<close>

definition after_check :: "SafeCache \<Rightarrow> pc" where
  "after_check c = (if GetRoutineNum c \<le> 0 then L62 else Returned)"

definition unit_step :: "Fetcher \<Rightarrow> state \<Rightarrow> nat \<Rightarrow> state option" where
  "unit_step f s i =
     (let fr = threads s ! i in
      case f_pc fr of
        L57 \<Rightarrow>
          Some (set_frame s i (fr\<lparr>f_pc := (if f_depth fr \<le> 0 then Returned else L66)\<rparr>))
      | L66 \<Rightarrow>
          Some ((set_frame s i (fr\<lparr>f_pc := L67\<rparr>))\<lparr>cache := Visited (cache s) (f_url fr)\<rparr>)
      | L67 \<Rightarrow>
          (case f (f_url fr) of
             (b, us, e) \<Rightarrow>
               Some (set_frame s i
                 (fr\<lparr>f_body := b, f_urls := us, f_err := e,
                     f_pc := (if e \<noteq> None then L70 else L81)\<rparr>)))
      | L70 \<Rightarrow>
          Some ((set_frame s i (fr\<lparr>f_pc := L71\<rparr>))
                 \<lparr>stdout := stdout s @
                    [ErrLine (case f_err fr of Some m \<Rightarrow> m | None \<Rightarrow> ''<nil>'')]\<rparr>)
      | L71 \<Rightarrow>
          Some ((set_frame s i (fr\<lparr>f_pc := L72\<rparr>))\<lparr>cache := DoneRoutine (cache s)\<rparr>)
      | L72 \<Rightarrow>
          Some (set_frame s i (fr\<lparr>f_pc := after_check (cache s)\<rparr>))
      | L81 \<Rightarrow>
          (if closed s then Some (s\<lparr>panic := Some ''send on closed channel''\<rparr>)
           else if mainpc s = M111 then
             Some ((set_frame s i (fr\<lparr>f_pc := L83\<rparr>))
                    \<lparr>sent := sent s @ [result_of fr], mainpc := M112 (result_of fr)\<rparr>)
           else None)
      | L83 \<Rightarrow>
          (case f_urls fr of
             [] \<Rightarrow> Some (set_frame s i (fr\<lparr>f_pc := L90\<rparr>))
           | u # us \<Rightarrow> Some (set_frame s i (fr\<lparr>f_urls := us, f_u := u, f_pc := L84\<rparr>)))
      | L84 \<Rightarrow>
          Some (set_frame s i
                 (fr\<lparr>f_pc := (if IsVisited (cache s) (f_u fr) then L83 else L85)\<rparr>))
      | L85 \<Rightarrow>
          Some ((set_frame s i (fr\<lparr>f_pc := L86\<rparr>))\<lparr>cache := AddRoutine (cache s)\<rparr>)
      | L86 \<Rightarrow>
          Some (s\<lparr>threads := (threads s)[i := fr\<lparr>f_pc := L83\<rparr>]
                              @ [new_frame (f_u fr) (f_depth fr - 1)]\<rparr>)
      | L90 \<Rightarrow>
          Some ((set_frame s i (fr\<lparr>f_pc := L91\<rparr>))\<lparr>cache := DoneRoutine (cache s)\<rparr>)
      | L91 \<Rightarrow>
          Some (set_frame s i (fr\<lparr>f_pc := after_check (cache s)\<rparr>))
      | L62 \<Rightarrow>
          (if closed s then Some (s\<lparr>panic := Some ''close of closed channel''\<rparr>)
           else Some ((set_frame s i (fr\<lparr>f_pc := Returned\<rparr>))\<lparr>closed := True\<rparr>))
      | Returned \<Rightarrow> None)"

subsection \<open>The main goroutine and the scheduler\<close>

text \<open>
  Lines 111 to 114. The receive itself is the rendezvous of line 81, a step of the
  sender; the main goroutine's own steps are the print and leaving the loop once the
  channel is closed.
\<close>

definition main_step :: "state \<Rightarrow> state option" where
  "main_step s =
     (case mainpc s of
        M111 \<Rightarrow> (if closed s then Some (s\<lparr>mainpc := M114\<rparr>) else None)
      | M112 r \<Rightarrow>
          Some (s\<lparr>stdout := stdout s @ [Found (url r) (body r)], mainpc := M111\<rparr>)
      | M114 \<Rightarrow> None)"

text \<open>
  Nothing moves once a goroutine has panicked or \<open>main\<close> has returned: either ends the
  process.
\<close>

definition step :: "Fetcher \<Rightarrow> state \<Rightarrow> actor \<Rightarrow> state option" where
  "step f s a =
     (if panic s = None \<and> mainpc s \<noteq> M114 then
        (case a of
           Main \<Rightarrow> main_step s
         | Unit i \<Rightarrow> (if i < length (threads s) then unit_step f s i else None))
      else None)"

fun run :: "Fetcher \<Rightarrow> state \<Rightarrow> actor list \<Rightarrow> state option" where
  "run f s [] = Some s"
| "run f s (a # as) = (case step f s a of None \<Rightarrow> None | Some s' \<Rightarrow> run f s' as)"

text \<open>
  Lines 104 to 110 of \<open>Crawl\<close>, which run before any other goroutine exists: the state
  in which the first \<open>crawl\<close> goroutine has been started and \<open>main\<close> enters the loop.
\<close>

definition Crawl_init :: "string \<Rightarrow> int \<Rightarrow> state" where
  "Crawl_init u d =
     \<lparr>cache = AddRoutine new_SafeCache, closed = False, sent = [],
      threads = [new_frame u d], mainpc = M111, stdout = [], panic = None\<rparr>"

text \<open>A state in which no actor can move.\<close>

definition stuck :: "Fetcher \<Rightarrow> state \<Rightarrow> bool" where
  "stuck f s =
     (step f s Main = None
      \<and> list_all (\<lambda>i. step f s (Unit i) = None) [0..<length (threads s)])"

subsection \<open>The counter and the goroutines it stands for\<close>

text \<open>
  What a frame contributes to \<open>routine\<close>: one from the \<open>AddRoutine\<close> made for it before
  it was started until its own \<open>DoneRoutine\<close> (lines 71 and 90), and one more while it
  stands between \<open>AddRoutine\<close> (line 85) and the \<open>go\<close> statement (line 86) for a child.
  A frame that left through the depth guard of line 57 never calls \<open>DoneRoutine\<close>.
\<close>

definition owed :: "frame \<Rightarrow> int" where
  "owed fr =
     (case f_pc fr of
        L72 \<Rightarrow> 0 | L91 \<Rightarrow> 0 | L62 \<Rightarrow> 0
      | Returned \<Rightarrow> (if 0 < f_depth fr then 0 else 1)
      | L86 \<Rightarrow> 2
      | _ \<Rightarrow> 1)"

definition live :: "state \<Rightarrow> int" where
  "live s = sum_list (map owed (threads s))"

definition counter_inv :: "state \<Rightarrow> bool" where
  "counter_inv s =
     (routine (cache s) = live s
      \<and> ((closed s \<or> (\<exists>fr \<in> set (threads s). f_pc fr = L62)) \<longrightarrow> live s = 0)
      \<and> (\<forall>fr \<in> set (threads s). f_pc fr = L57 \<or> f_pc fr = Returned \<or> 0 < f_depth fr))"

text \<open>A frame that has made its own \<open>DoneRoutine\<close>.\<close>

definition decremented :: "frame \<Rightarrow> bool" where
  "decremented fr = (0 < f_depth fr \<and> f_pc fr \<in> {L72, L91, L62, Returned})"

subsection \<open>Concrete runs\<close>

text \<open>What is looked at in the state a schedule leads to.\<close>

definition snapshot :: "state \<Rightarrow> bool \<times> int \<times> pc list \<times> main_pc \<times> string option" where
  "snapshot s = (closed s, routine (cache s), map f_pc (threads s), mainpc s, panic s)"

definition outputs :: "state \<Rightarrow> FetchResult list \<times> event list" where
  "outputs s = (sent s, stdout s)"

definition frame_key :: "frame \<Rightarrow> string \<times> int" where
  "frame_key fr = (f_url fr, f_depth fr)"

definition spawned :: "state \<Rightarrow> (string \<times> int) list" where
  "spawned s = map frame_key (threads s)"

definition marked :: "string \<Rightarrow> state \<Rightarrow> bool" where
  "marked u s = IsVisited (cache s) u"

text \<open>\<open>main\<close> of the program: \<open>Crawl("https://golang.org/", 4, fetcher)\<close>, line 118.\<close>

definition main_run :: "actor list \<Rightarrow> state option" where
  "main_run sched = run (fakeFetcher_Fetch fetcher) (Crawl_init ''https://golang.org/'' 4) sched"

text \<open>
  A schedule of \<open>main\<close>: the root runs to its end, then the goroutine of \<open>cmd/\<close>, then
  the one of \<open>pkg/\<close>, then those of \<open>pkg/fmt/\<close> and \<open>pkg/os/\<close> up to and including their
  \<open>DoneRoutine\<close> of line 90; then both read the counter (line 61) and both close
  (line 62).
\<close>

definition sched_double_close :: "actor list" where
  "sched_double_close =
     replicate 4 (Unit 0) @ [Main] @ replicate 11 (Unit 0) @ replicate 6 (Unit 2)
     @ replicate 4 (Unit 1) @ [Main] @ replicate 15 (Unit 1)
     @ replicate 4 (Unit 3) @ [Main] @ replicate 6 (Unit 3)
     @ replicate 4 (Unit 4) @ [Main] @ replicate 6 (Unit 4)
     @ [Unit 3, Unit 4, Unit 3, Unit 4]"

text \<open>The same fetcher and root with \<open>depth = 1\<close>: \<open>Crawl("https://golang.org/", 1, fetcher)\<close>.\<close>

definition depth1_run :: "actor list \<Rightarrow> state option" where
  "depth1_run sched = run (fakeFetcher_Fetch fetcher) (Crawl_init ''https://golang.org/'' 1) sched"

text \<open>
  The root up to the \<open>go\<close> statement for its first edge \<open>pkg/\<close>; the rest of the root's
  run; the two children, started with \<open>depth = 0\<close>.
\<close>

definition sched_first_spawn :: "actor list" where
  "sched_first_spawn = replicate 4 (Unit 0) @ [Main] @ replicate 4 (Unit 0)"

definition sched_leak :: "actor list" where
  "sched_leak = sched_first_spawn @ replicate 7 (Unit 0) @ [Unit 1, Unit 2]"

text \<open>
  The scenario of the specification: \<open>A\<close> has the edges \<open>B\<close> and \<open>C\<close>, \<open>B\<close> has the edge
  \<open>A\<close>, the fetch of \<open>C\<close> fails; \<open>maxDepth = 2\<close>. As a \<open>fakeFetcher\<close>:
\<close>

definition scenario :: fakeFetcher where
  "scenario =
     map_of [(''A'', \<lparr>fr_body = ''a'', fr_urls = [''B'', ''C'']\<rparr>),
             (''B'', \<lparr>fr_body = ''b'', fr_urls = [''A'']\<rparr>)]"

definition scenario_run :: "actor list \<Rightarrow> state option" where
  "scenario_run sched = run (fakeFetcher_Fetch scenario) (Crawl_init ''A'' 2) sched"

text \<open>
  \<open>A\<close> runs to its end, \<open>B\<close> up to its \<open>DoneRoutine\<close> (line 90), \<open>C\<close> up to its
  \<open>DoneRoutine\<close> (line 71); then \<open>B\<close> reads the counter and closes the channel.
\<close>

definition sched_close_early :: "actor list" where
  "sched_close_early =
     replicate 4 (Unit 0) @ [Main] @ replicate 11 (Unit 0)
     @ replicate 4 (Unit 1) @ [Main] @ replicate 4 (Unit 1)
     @ replicate 5 (Unit 2) @ [Unit 1, Unit 1]"

text \<open>
  A complete run of the scenario: after \<open>sched_close_early\<close>, \<open>main\<close> sees the closed
  channel and returns.
\<close>

definition sched_scenario_exit :: "actor list" where
  "sched_scenario_exit = sched_close_early @ [Main]"

subsection \<open>What a frame knows about its fetch\<close>

definition fetch_body :: "Fetcher \<Rightarrow> string \<Rightarrow> string" where
  "fetch_body f u = fst (f u)"

definition fetch_urls :: "Fetcher \<Rightarrow> string \<Rightarrow> string list" where
  "fetch_urls f u = fst (snd (f u))"

definition fetch_err :: "Fetcher \<Rightarrow> string \<Rightarrow> string option" where
  "fetch_err f u = snd (snd (f u))"

text \<open>
  The edges \<open>crawl\<close> can follow from a node: the urls its fetch returns, when the fetch
  succeeds. \<open>nodes_at f root k\<close> lists the ends of the paths of \<open>k\<close> such edges from
  \<open>root\<close>.
\<close>

definition succs :: "Fetcher \<Rightarrow> string \<Rightarrow> string list" where
  "succs f u = (if fetch_err f u = None then fetch_urls f u else [])"

fun nodes_at :: "Fetcher \<Rightarrow> string \<Rightarrow> nat \<Rightarrow> string list" where
  "nodes_at f root 0 = [root]"
| "nodes_at f root (Suc k) = concat (map (succs f) (nodes_at f root k))"

text \<open>
  Past line 67 the locals hold what \<open>Fetch\<close> returned for the frame's url; the success
  path (lines 81 to 91) is entered only with a nil error, the error path (lines 70 to
  72) only with a non-nil one; the loop variable is one of the returned urls.
\<close>

definition fetched_ok :: "Fetcher \<Rightarrow> frame \<Rightarrow> bool" where
  "fetched_ok f fr =
     (0 < f_depth fr \<and> f_err fr = None \<and> fetch_err f (f_url fr) = None
      \<and> fetch_body f (f_url fr) = f_body fr
      \<and> set (f_urls fr) \<subseteq> set (fetch_urls f (f_url fr)))"

definition fetched_err :: "Fetcher \<Rightarrow> frame \<Rightarrow> bool" where
  "fetched_err f fr =
     (0 < f_depth fr \<and> f_err fr \<noteq> None \<and> fetch_err f (f_url fr) = f_err fr)"

definition fetched_any :: "Fetcher \<Rightarrow> frame \<Rightarrow> bool" where
  "fetched_any f fr =
     (fetch_err f (f_url fr) = f_err fr
      \<and> (f_err fr = None \<longrightarrow> fetch_body f (f_url fr) = f_body fr))"

definition frame_inv :: "Fetcher \<Rightarrow> frame \<Rightarrow> bool" where
  "frame_inv f fr =
     (case f_pc fr of
        L57 \<Rightarrow> True
      | L66 \<Rightarrow> 0 < f_depth fr
      | L67 \<Rightarrow> 0 < f_depth fr
      | L70 \<Rightarrow> fetched_err f fr
      | L71 \<Rightarrow> fetched_err f fr
      | L72 \<Rightarrow> fetched_err f fr
      | L81 \<Rightarrow> fetched_ok f fr
      | L83 \<Rightarrow> fetched_ok f fr
      | L84 \<Rightarrow> fetched_ok f fr \<and> f_u fr \<in> set (fetch_urls f (f_url fr))
      | L85 \<Rightarrow> fetched_ok f fr \<and> f_u fr \<in> set (fetch_urls f (f_url fr))
      | L86 \<Rightarrow> fetched_ok f fr \<and> f_u fr \<in> set (fetch_urls f (f_url fr))
      | L90 \<Rightarrow> fetched_ok f fr
      | L91 \<Rightarrow> fetched_ok f fr
      | L62 \<Rightarrow> 0 < f_depth fr \<and> fetched_any f fr
      | Returned \<Rightarrow> 0 < f_depth fr \<longrightarrow> fetched_any f fr)"

text \<open>The frame that sent a result: it is past line 81, on the success path.\<close>

fun past_send :: "pc \<Rightarrow> bool" where
  "past_send L83 = True"
| "past_send L84 = True"
| "past_send L85 = True"
| "past_send L86 = True"
| "past_send L90 = True"
| "past_send L91 = True"
| "past_send L62 = True"
| "past_send Returned = True"
| "past_send _ = False"

definition sender :: "FetchResult \<Rightarrow> frame \<Rightarrow> bool" where
  "sender r fr =
     (r = result_of fr \<and> 0 < f_depth fr \<and> f_err fr = None \<and> past_send (f_pc fr))"

text \<open>A frame that is past \<open>fmt.Println(err)\<close> of line 70.\<close>

fun past_log :: "pc \<Rightarrow> bool" where
  "past_log L71 = True"
| "past_log L72 = True"
| "past_log L62 = True"
| "past_log Returned = True"
| "past_log _ = False"

definition logged :: "frame \<Rightarrow> bool" where
  "logged fr = (0 < f_depth fr \<and> f_err fr \<noteq> None \<and> past_log (f_pc fr))"

definition trace_inv :: "Fetcher \<Rightarrow> string \<Rightarrow> int \<Rightarrow> state \<Rightarrow> bool" where
  "trace_inv f root d s =
     ((\<forall>fr \<in> set (threads s). frame_inv f fr)
      \<and> (\<forall>fr \<in> set (threads s). \<exists>k. f_depth fr = d - int k \<and> f_url fr \<in> set (nodes_at f root k))
      \<and> (\<forall>r \<in> set (sent s). \<exists>fr \<in> set (threads s). sender r fr)
      \<and> (\<forall>fr \<in> set (threads s). \<forall>m. logged fr \<and> f_err fr = Some m \<longrightarrow> ErrLine m \<in> set (stdout s)))"

subsection \<open>The range loop run alone\<close>

text \<open>
  The number of steps the loop of lines 83 to 88 takes for the urls \<open>es\<close> when no other
  goroutine writes the visited map meanwhile: two for a visited url, four for an
  unvisited one, and one to leave the loop.
\<close>

fun loop_steps :: "SafeCache \<Rightarrow> string list \<Rightarrow> nat" where
  "loop_steps c [] = 1"
| "loop_steps c (u # us) = (if IsVisited c u then 2 else 4) + loop_steps c us"

text \<open>
  In \<open>main\<close>: the root after its send, at the head of its loop; and the goroutine of
  \<open>cmd/\<close> (the third one started) in front of its \<open>Fetch\<close>.
\<close>

definition sched_root_loop :: "actor list" where
  "sched_root_loop = replicate 4 (Unit 0) @ [Main]"

definition sched_cmd_fetch :: "actor list" where
  "sched_cmd_fetch = sched_root_loop @ replicate 8 (Unit 0) @ [Unit 2, Unit 2]"

subsection \<open>Ends of runs\<close>

text \<open>A frame between its \<open>DoneRoutine\<close> and the end of its \<open>chanCloseFunc\<close>.\<close>

fun in_check :: "pc \<Rightarrow> bool" where
  "in_check L72 = True"
| "in_check L91 = True"
| "in_check L62 = True"
| "in_check _ = False"

definition close_inv :: "state \<Rightarrow> bool" where
  "close_inv s =
     ((live s = 0 \<longrightarrow> closed s \<or> (\<exists>fr \<in> set (threads s). in_check (f_pc fr)))
      \<and> (panic s \<noteq> None \<longrightarrow> closed s)
      \<and> (mainpc s = M114 \<longrightarrow> closed s))"

subsection \<open>A bound on the steps that remain\<close>

text \<open>
  \<open>cost f n u\<close> bounds the steps of a goroutine started for \<open>u\<close> with \<open>depth = n\<close>,
  together with those of every goroutine it can start and the prints of \<open>main\<close> for
  their results. \<open>weight\<close> is the same bound for a frame at any program point, and
  \<open>remaining\<close> adds up the frames and \<open>main\<close>.
\<close>

fun cost :: "Fetcher \<Rightarrow> nat \<Rightarrow> string \<Rightarrow> nat" where
  "cost f 0 u = 1"
| "cost f (Suc n) u =
     3 + (if fetch_err f u \<noteq> None then 4
          else 6 + sum_list (map (\<lambda>v. 4 + cost f n v) (fetch_urls f u)))"

definition loop_weight :: "Fetcher \<Rightarrow> int \<Rightarrow> string list \<Rightarrow> nat" where
  "loop_weight f d us = 4 + sum_list (map (\<lambda>v. 4 + cost f (nat (d - 1)) v) us)"

definition fetch_weight :: "Fetcher \<Rightarrow> int \<Rightarrow> string \<Rightarrow> nat" where
  "fetch_weight f d u =
     (if fetch_err f u \<noteq> None then 4 else 2 + loop_weight f d (fetch_urls f u))"

definition weight :: "Fetcher \<Rightarrow> frame \<Rightarrow> nat" where
  "weight f fr =
     (case f_pc fr of
        L57 \<Rightarrow> cost f (nat (f_depth fr)) (f_url fr)
      | L66 \<Rightarrow> 2 + fetch_weight f (f_depth fr) (f_url fr)
      | L67 \<Rightarrow> 1 + fetch_weight f (f_depth fr) (f_url fr)
      | L70 \<Rightarrow> 4
      | L71 \<Rightarrow> 3
      | L72 \<Rightarrow> 2
      | L81 \<Rightarrow> 2 + loop_weight f (f_depth fr) (f_urls fr)
      | L83 \<Rightarrow> loop_weight f (f_depth fr) (f_urls fr)
      | L84 \<Rightarrow> 3 + cost f (nat (f_depth fr - 1)) (f_u fr) + loop_weight f (f_depth fr) (f_urls fr)
      | L85 \<Rightarrow> 2 + cost f (nat (f_depth fr - 1)) (f_u fr) + loop_weight f (f_depth fr) (f_urls fr)
      | L86 \<Rightarrow> 1 + cost f (nat (f_depth fr - 1)) (f_u fr) + loop_weight f (f_depth fr) (f_urls fr)
      | L90 \<Rightarrow> 3
      | L91 \<Rightarrow> 2
      | L62 \<Rightarrow> 1
      | Returned \<Rightarrow> 0)"

fun main_weight :: "main_pc \<Rightarrow> nat" where
  "main_weight M111 = 1"
| "main_weight (M112 r) = 2"
| "main_weight M114 = 0"

definition remaining :: "Fetcher \<Rightarrow> state \<Rightarrow> nat" where
  "remaining f s =
     (if panic s \<noteq> None then 0
      else main_weight (mainpc s) + sum_list (map (weight f) (threads s)))"

subsection \<open>What \<open>main\<close> prints\<close>

text \<open>
  The \<open>(url, body)\<close> pairs of the \<open>found\<close> lines on the standard output, in order, and
  the pair \<open>main\<close> has received and not yet printed.
\<close>

fun found_pairs :: "event list \<Rightarrow> (string \<times> string) list" where
  "found_pairs [] = []"
| "found_pairs (Found u b # evs) = (u, b) # found_pairs evs"
| "found_pairs (ErrLine m # evs) = found_pairs evs"

fun holding :: "main_pc \<Rightarrow> (string \<times> string) list" where
  "holding (M112 r) = [(url r, body r)]"
| "holding _ = []"

definition print_inv :: "state \<Rightarrow> bool" where
  "print_inv s =
     (map (\<lambda>r. (url r, body r)) (sent s) = found_pairs (stdout s) @ holding (mainpc s))"

subsection \<open>The scenario of the specification, for any fetcher that fits it\<close>

text \<open>
  \<open>A\<close> has the edges \<open>B\<close> and \<open>C\<close>, \<open>B\<close> has the edge \<open>A\<close>, the fetch of \<open>C\<close> fails with the
  error \<open>e\<close>; \<open>ba\<close> and \<open>bb\<close> are the bodies of \<open>A\<close> and \<open>B\<close>.
\<close>

definition scenario_fetcher :: "Fetcher \<Rightarrow> string \<Rightarrow> string \<Rightarrow> string \<Rightarrow> bool" where
  "scenario_fetcher f ba bb e =
     (f ''A'' = (ba, [''B'', ''C''], None) \<and> f ''B'' = (bb, [''A''], None)
      \<and> fetch_err f ''C'' = Some e)"

text \<open>
  Where the three goroutines of the scenario can stand. \<open>n\<close> is the number of goroutines
  started so far: the root starts \<open>B\<close> and then \<open>C\<close>, and nothing else is ever started.
\<close>

definition root_ok :: "string \<Rightarrow> nat \<Rightarrow> frame \<Rightarrow> bool" where
  "root_ok ba n fr =
     (f_url fr = ''A'' \<and> f_depth fr = 2 \<and>
      (case f_pc fr of
         L57 \<Rightarrow> n = 1
       | L66 \<Rightarrow> n = 1
       | L67 \<Rightarrow> n = 1
       | L81 \<Rightarrow> n = 1 \<and> f_body fr = ba \<and> f_err fr = None \<and> f_urls fr = [''B'', ''C'']
       | L83 \<Rightarrow> f_body fr = ba \<and> f_err fr = None
                \<and> ((n = 1 \<and> f_urls fr = [''B'', ''C'']) \<or> (n = 2 \<and> f_urls fr = [''C''])
                    \<or> (n = 3 \<and> f_urls fr = []))
       | L84 \<Rightarrow> f_body fr = ba \<and> f_err fr = None
                \<and> ((n = 1 \<and> f_u fr = ''B'' \<and> f_urls fr = [''C''])
                    \<or> (n = 2 \<and> f_u fr = ''C'' \<and> f_urls fr = []))
       | L85 \<Rightarrow> f_body fr = ba \<and> f_err fr = None
                \<and> ((n = 1 \<and> f_u fr = ''B'' \<and> f_urls fr = [''C''])
                    \<or> (n = 2 \<and> f_u fr = ''C'' \<and> f_urls fr = []))
       | L86 \<Rightarrow> f_body fr = ba \<and> f_err fr = None
                \<and> ((n = 1 \<and> f_u fr = ''B'' \<and> f_urls fr = [''C''])
                    \<or> (n = 2 \<and> f_u fr = ''C'' \<and> f_urls fr = []))
       | L90 \<Rightarrow> n = 3 \<and> f_body fr = ba \<and> f_err fr = None
       | L91 \<Rightarrow> n = 3 \<and> f_body fr = ba \<and> f_err fr = None
       | L62 \<Rightarrow> n = 3 \<and> f_body fr = ba \<and> f_err fr = None
       | Returned \<Rightarrow> n = 3 \<and> f_body fr = ba \<and> f_err fr = None
       | _ \<Rightarrow> False))"

definition b_ok :: "string \<Rightarrow> frame \<Rightarrow> bool" where
  "b_ok bb fr =
     (f_url fr = ''B'' \<and> f_depth fr = 1 \<and>
      (case f_pc fr of
         L57 \<Rightarrow> True
       | L66 \<Rightarrow> True
       | L67 \<Rightarrow> True
       | L81 \<Rightarrow> f_body fr = bb \<and> f_err fr = None \<and> f_urls fr = [''A'']
       | L83 \<Rightarrow> f_body fr = bb \<and> f_err fr = None \<and> (f_urls fr = [''A''] \<or> f_urls fr = [])
       | L84 \<Rightarrow> f_body fr = bb \<and> f_err fr = None \<and> f_u fr = ''A'' \<and> f_urls fr = []
       | L90 \<Rightarrow> f_body fr = bb \<and> f_err fr = None
       | L91 \<Rightarrow> f_body fr = bb \<and> f_err fr = None
       | L62 \<Rightarrow> f_body fr = bb \<and> f_err fr = None
       | Returned \<Rightarrow> f_body fr = bb \<and> f_err fr = None
       | _ \<Rightarrow> False))"

definition c_ok :: "string \<Rightarrow> frame \<Rightarrow> bool" where
  "c_ok e fr =
     (f_url fr = ''C'' \<and> f_depth fr = 1 \<and>
      (case f_pc fr of
         L57 \<Rightarrow> True
       | L66 \<Rightarrow> True
       | L67 \<Rightarrow> True
       | L70 \<Rightarrow> f_err fr = Some e
       | L71 \<Rightarrow> f_err fr = Some e
       | L72 \<Rightarrow> f_err fr = Some e
       | L62 \<Rightarrow> f_err fr = Some e
       | Returned \<Rightarrow> f_err fr = Some e
       | _ \<Rightarrow> False))"

text \<open>What a frame has sent: its result once it is past line 81.\<close>

definition sent_by :: "string \<Rightarrow> string \<Rightarrow> frame \<Rightarrow> FetchResult list" where
  "sent_by u b fr = (if past_send (f_pc fr) then [\<lparr>url = u, body = b, err = None\<rparr>] else [])"

definition scen_inv :: "string \<Rightarrow> string \<Rightarrow> string \<Rightarrow> state \<Rightarrow> bool" where
  "scen_inv ba bb e s =
     (case threads s of
        [r] \<Rightarrow>
          root_ok ba 1 r \<and> sent s = sent_by ''A'' ba r
          \<and> (f_pc r \<noteq> L57 \<and> f_pc r \<noteq> L66 \<longrightarrow> IsVisited (cache s) ''A'')
          \<and> \<not> IsVisited (cache s) ''B'' \<and> \<not> IsVisited (cache s) ''C''
      | [r, b] \<Rightarrow>
          root_ok ba 2 r \<and> b_ok bb b \<and> sent s = sent_by ''A'' ba r @ sent_by ''B'' bb b
          \<and> IsVisited (cache s) ''A'' \<and> \<not> IsVisited (cache s) ''C''
      | [r, b, c] \<Rightarrow>
          root_ok ba 3 r \<and> b_ok bb b \<and> c_ok e c
          \<and> sent s = sent_by ''A'' ba r @ sent_by ''B'' bb b
          \<and> IsVisited (cache s) ''A''
          \<and> (past_log (f_pc c) \<longrightarrow> ErrLine e \<in> set (stdout s))
      | _ \<Rightarrow> False)"

section \<open>The visit tracker\<close>

lemma IsVisited_Visited: "IsVisited (Visited c u) v = (v = u \<or> IsVisited c v)"
  by (simp add: IsVisited_def Visited_def)

lemma IsVisited_apply_call:
  "IsVisited (apply_call c x) v = (x = CallVisited v \<or> IsVisited c v)"
proof (cases x)
  case (CallVisited w)
  then show ?thesis by (auto simp: IsVisited_Visited)
qed (simp_all add: IsVisited_def AddRoutine_def DoneRoutine_def)

lemma IsVisited_foldl:
  "IsVisited (foldl apply_call c cs) v = (CallVisited v \<in> set cs \<or> IsVisited c v)"
  by (induction cs arbitrary: c) (auto simp: IsVisited_apply_call)

text \<open>
  C9. Marking an identifier twice leaves the tracker as marking it once does. On a
  tracker made by line 104 and then used through any sequence of method calls,
  \<open>IsVisited u\<close> is true exactly when \<open>Visited u\<close> is among the calls made before; a call
  of \<open>IsVisited\<close> changes nothing, and on the fresh tracker \<open>IsVisited\<close> is false for
  every identifier.
\<close>

theorem C9_visit_tracker:
  "Visited (Visited c u) u = Visited c u
   \<and> IsVisited (apply_calls new_SafeCache cs) u = (CallVisited u \<in> set cs)
   \<and> apply_call c (CallIsVisited v) = c
   \<and> IsVisited new_SafeCache u = False"
proof -
  have fresh: "IsVisited new_SafeCache u = False"
    by (simp add: IsVisited_def new_SafeCache_def)
  have "Visited (Visited c u) u = Visited c u"
    by (simp add: Visited_def)
  moreover have "IsVisited (apply_calls new_SafeCache cs) u = (CallVisited u \<in> set cs)"
    by (simp add: apply_calls_def IsVisited_foldl fresh)
  ultimately show ?thesis
    using fresh by simp
qed

section \<open>The bundled fetcher\<close>

lemma fetcher_dom:
  "dom fetcher = {''https://golang.org/'', ''https://golang.org/pkg/'',
                  ''https://golang.org/pkg/fmt/'', ''https://golang.org/pkg/os/''}"
  by (auto simp: fetcher_def fetcher_entries_def dom_map_of_conv_image_fst)

section \<open>Executions and invariants\<close>

lemma run_invariant:
  assumes "P s0" and "\<And>s a s'. P s \<Longrightarrow> step f s a = Some s' \<Longrightarrow> P s'"
  shows "run f s0 sched = Some s \<Longrightarrow> P s"
  using assms(1)
proof (induction sched arbitrary: s0)
  case Nil
  then show ?case by simp
next
  case (Cons a sched)
  then show ?case using assms(2) by (auto split: option.splits)
qed


lemma sum_list_map_update:
  fixes g :: "'a \<Rightarrow> int"
  shows "i < length xs \<Longrightarrow>
    sum_list (map g (xs[i := x])) = sum_list (map g xs) - g (xs ! i) + g x"
proof (induction xs arbitrary: i)
  case Nil
  then show ?case by simp
next
  case (Cons a xs)
  then show ?case by (cases i) auto
qed

lemma set_update_cases: "y \<in> set (xs[i := x]) \<Longrightarrow> y = x \<or> y \<in> set xs"
  using set_update_subset_insert[of xs i x] by auto

lemmas unit_defs = unit_step_def Let_def set_frame_def after_check_def GetRoutineNum_def
  DoneRoutine_def AddRoutine_def Visited_def

lemma step_Unit_D:
  "step f s (Unit i) = Some s' \<Longrightarrow>
     i < length (threads s) \<and> unit_step f s i = Some s' \<and> panic s = None \<and> mainpc s \<noteq> M114"
  by (auto simp: step_def split: if_splits)

subsection \<open>The counter counts the goroutines that have not yet called DoneRoutine\<close>

lemma owed_nonneg: "0 \<le> owed fr"
  by (simp add: owed_def split: pc.splits)

lemma live_nonneg: "0 \<le> live s"
  unfolding live_def by (rule sum_list_nonneg) (auto simp: owed_nonneg)

lemma live_zero_iff: "live s = 0 \<longleftrightarrow> (\<forall>fr \<in> set (threads s). owed fr = 0)"
  unfolding live_def
  by (subst sum_list_nonneg_eq_0_iff) (auto simp: owed_nonneg)

lemma nth_le_sum_list_int:
  fixes g :: "'a \<Rightarrow> int"
  assumes "\<And>x. 0 \<le> g x"
  shows "i < length xs \<Longrightarrow> g (xs ! i) \<le> sum_list (map g xs)"
proof (induction xs arbitrary: i)
  case Nil
  then show ?case by simp
next
  case (Cons a xs)
  have "0 \<le> sum_list (map g xs)"
    by (rule sum_list_nonneg) (auto simp: assms)
  with Cons assms[of a] show ?case
    by (cases i) (auto simp: add_increasing add_increasing2)
qed

lemma owed_le_live: "i < length (threads s) \<Longrightarrow> owed (threads s ! i) \<le> live s"
  unfolding live_def by (rule nth_le_sum_list_int) (rule owed_nonneg)

lemma owed_zero_iff: "owed fr = 0 \<longleftrightarrow> f_pc fr \<in> {L72, L91, L62} \<or> (f_pc fr = Returned \<and> 0 < f_depth fr)"
  by (simp add: owed_def split: pc.splits)

lemma counter_inv_init: "counter_inv (Crawl_init u d)"
  by (simp add: counter_inv_def Crawl_init_def live_def owed_def new_frame_def
      AddRoutine_def new_SafeCache_def)

lemma counter_inv_step:
  assumes inv: "counter_inv s" and st: "step f s a = Some s'"
  shows "counter_inv s'"
proof (cases a)
  case Main
  with st inv show ?thesis
    by (auto simp: counter_inv_def step_def main_step_def live_def
        split: if_splits main_pc.splits)
next
  case (Unit i)
  with st have i: "i < length (threads s)" and us: "unit_step f s i = Some s'"
    by (auto dest: step_Unit_D)
  let ?fr = "threads s ! i"
  have mem: "?fr \<in> set (threads s)" using i by simp
  have le: "owed ?fr \<le> live s" using i by (rule owed_le_live)
  from inv have r: "routine (cache s) = live s"
    and c: "(\<not> closed s \<and> (\<forall>fr \<in> set (threads s). f_pc fr \<noteq> L62)) \<or> live s = 0"
    and d: "\<forall>fr \<in> set (threads s). f_pc fr = L57 \<or> f_pc fr = Returned \<or> 0 < f_depth fr"
    by (auto simp: counter_inv_def)
  have d': "f_pc ?fr = L57 \<or> f_pc ?fr = Returned \<or> 0 < f_depth ?fr"
    using d mem by blast
  have A: "routine (cache s') = live s'"
    using us i le r d'
    by (cases "f_pc ?fr")
       (auto simp add: unit_defs live_def sum_list_map_update owed_def new_frame_def
             split: prod.splits list.splits if_splits)
  have B: "\<forall>fr \<in> set (threads s'). f_pc fr = L57 \<or> f_pc fr = Returned \<or> 0 < f_depth fr"
    using us i d d'
    by (cases "f_pc ?fr")
       (auto simp add: unit_defs new_frame_def
             dest!: set_update_cases split: prod.splits list.splits if_splits)
  have C: "(\<not> closed s' \<and> (\<forall>fr \<in> set (threads s'). f_pc fr \<noteq> L62)) \<or> live s' = 0"
    using us i le c d' mem r
    by (cases "f_pc ?fr")
       (auto simp add: unit_defs live_def sum_list_map_update owed_def new_frame_def
             dest!: set_update_cases split: prod.splits list.splits if_splits)
  show ?thesis
    using A B C by (auto simp: counter_inv_def)
qed

lemma counter_inv_run: "run f (Crawl_init u d) sched = Some s \<Longrightarrow> counter_inv s"
  by (rule run_invariant[where P = counter_inv, OF counter_inv_init counter_inv_step])

subsection \<open>When the channel is closed\<close>

lemma closed_all_decremented:
  assumes "run f (Crawl_init u d) sched = Some s"
    and "closed s \<or> GetRoutineNum (cache s) \<le> 0"
  shows "\<forall>fr \<in> set (threads s). decremented fr"
proof -
  have inv: "counter_inv s" using assms(1) by (rule counter_inv_run)
  have "live s = 0"
    using inv assms(2) live_nonneg[of s] by (auto simp: counter_inv_def GetRoutineNum_def)
  then have z: "\<forall>fr \<in> set (threads s). owed fr = 0" by (simp add: live_zero_iff)
  show ?thesis
  proof
    fix fr assume fr: "fr \<in> set (threads s)"
    with z have "owed fr = 0" by blast
    moreover from inv fr have "f_pc fr = L57 \<or> f_pc fr = Returned \<or> 0 < f_depth fr"
      by (auto simp: counter_inv_def)
    ultimately show "decremented fr"
      by (auto simp: owed_zero_iff decremented_def)
  qed
qed

text \<open>
  So a goroutine started with \<open>depth \<le> 0\<close> keeps the channel open for the rest of the
  run: it never calls \<open>DoneRoutine\<close>.
\<close>

lemma leaked_never_closed:
  assumes "run f (Crawl_init u d) sched = Some s"
    and "fr \<in> set (threads s)" and "f_depth fr \<le> 0"
  shows "\<not> closed s"
proof
  assume "closed s"
  with closed_all_decremented[OF assms(1)] assms(2) have "decremented fr" by blast
  with assms(3) show False by (simp add: decremented_def)
qed

text \<open>
  In every run, the channel is closed, and the counter is read at or below zero, only
  in states in which every goroutine started so far has already made its own
  \<open>DoneRoutine\<close> (lemma \<open>closed_all_decremented\<close>). A goroutine can, however, stand
  between its \<open>DoneRoutine\<close> and its read of the counter at that moment.

  C5 fails there. \<open>DoneRoutine\<close> (lines 71 and 90) and the read of the counter (line 61)
  are two critical sections. In the scenario of the specification, under
  \<open>sched_close_early\<close>, the goroutine of \<open>B\<close> reads zero and closes the channel while the
  goroutine of \<open>C\<close> is still running, at line 72: it has decremented and not yet read.
  Its next two steps read zero and call \<open>close\<close> again, which panics. In the program's own
  \<open>main\<close>, under \<open>sched_double_close\<close> without its last step, the channel is closed by
  the goroutine of \<open>pkg/fmt/\<close> while that of \<open>pkg/os/\<close> is still running, at line 62.
\<close>

theorem C5_closed_while_unit_running:
  "map_option snapshot (scenario_run sched_close_early)
     = Some (True, 0, [Returned, Returned, L72], M111, None)
   \<and> map_option snapshot (scenario_run (sched_close_early @ [Unit 2, Unit 2]))
     = Some (True, 0, [Returned, Returned, L62], M111, Some ''close of closed channel'')
   \<and> map_option snapshot (main_run (butlast sched_double_close))
     = Some (True, 0, [Returned, Returned, Returned, Returned, L62], M111, None)"
  by code_simp

text \<open>
  C3 fails on the program's own \<open>main\<close>. \<open>DoneRoutine\<close> and the read of the counter in
  \<open>chanCloseFunc\<close> are two critical sections: under \<open>sched_double_close\<close> the goroutines
  of \<open>pkg/fmt/\<close> and \<open>pkg/os/\<close> both decrement, then both read zero, then both call
  \<open>close(ch)\<close>, and the second call panics.
\<close>

theorem C3_double_close:
  "map_option snapshot (main_run sched_double_close)
     = Some (True, 0, [Returned, Returned, Returned, Returned, L62], M111,
             Some ''close of closed channel'')"
  by code_simp

text \<open>
  C1 fails for \<open>Crawl("https://golang.org/", 1, fetcher)\<close>. The root starts its two
  children with \<open>depth = 0\<close> after an \<open>AddRoutine\<close> for each; both return at line 58
  without \<open>DoneRoutine\<close>. Every goroutine has returned, the counter is 2, the channel is
  open, \<open>main\<close> is blocked in its receive and no actor can move.
\<close>

theorem C1_leak_deadlock:
  "map_option snapshot (depth1_run sched_leak)
     = Some (False, 2, [Returned, Returned, Returned], M111, None)
   \<and> map_option (stuck (fakeFetcher_Fetch fetcher)) (depth1_run sched_leak) = Some True"
  by code_simp

text \<open>
  C2 at the same input. After the root's \<open>AddRoutine\<close> and \<open>go\<close> for \<open>pkg/\<close> the counter
  is 2 and the child stands at line 57 with \<open>depth = 0\<close>: the increment was made on its
  behalf. Its one step returns and changes nothing else (no mark, nothing sent or
  printed, the counter still 2, the channel open); it has no further step.
\<close>

theorem C2_depth_guard_counted:
  "map_option snapshot (depth1_run sched_first_spawn)
     = Some (False, 2, [L83, L57], M111, None)
   \<and> map_option spawned (depth1_run sched_first_spawn)
     = Some [(''https://golang.org/'', 1), (''https://golang.org/pkg/'', 0)]
   \<and> map_option snapshot (depth1_run (sched_first_spawn @ [Unit 1]))
     = Some (False, 2, [L83, Returned], M111, None)
   \<and> map_option outputs (depth1_run (sched_first_spawn @ [Unit 1]))
     = map_option outputs (depth1_run sched_first_spawn)
   \<and> map_option (marked ''https://golang.org/pkg/'') (depth1_run (sched_first_spawn @ [Unit 1]))
     = Some False
   \<and> map_option snapshot (depth1_run (sched_first_spawn @ [Unit 1, Unit 1])) = None"
  by code_simp

subsection \<open>Frames, sent results and printed errors\<close>

lemma trace_inv_init: "trace_inv f root d (Crawl_init root d)"
  by (simp add: trace_inv_def Crawl_init_def frame_inv_def new_frame_def logged_def)

lemma trace_inv_step:
  assumes inv: "trace_inv f root d s" and st: "step f s a = Some s'"
  shows "trace_inv f root d s'"
proof (cases a)
  case Main
  with st inv show ?thesis
    by (auto simp: trace_inv_def step_def main_step_def split: if_splits main_pc.splits)
next
  case (Unit i)
  with st have i: "i < length (threads s)" and us: "unit_step f s i = Some s'"
    by (auto dest: step_Unit_D)
  let ?fr = "threads s ! i"
  have mem: "?fr \<in> set (threads s)" using i by simp
  from inv have F: "\<forall>fr \<in> set (threads s). frame_inv f fr"
    and P: "\<forall>fr \<in> set (threads s). \<exists>k. f_depth fr = d - int k \<and> f_url fr \<in> set (nodes_at f root k)"
    and S: "\<forall>r \<in> set (sent s). \<exists>fr \<in> set (threads s). sender r fr"
    and G: "\<forall>fr \<in> set (threads s). \<forall>m. logged fr \<and> f_err fr = Some m \<longrightarrow> ErrLine m \<in> set (stdout s)"
    by (auto simp: trace_inv_def)
  have F0: "frame_inv f ?fr" using F mem by blast
  have A: "\<forall>fr \<in> set (threads s'). frame_inv f fr"
    using us i F F0
    by (cases "f_pc ?fr")
       (auto simp add: unit_defs new_frame_def frame_inv_def fetched_ok_def fetched_err_def fetched_any_def
          fetch_err_def fetch_body_def fetch_urls_def
             dest!: set_update_cases split: prod.splits list.splits if_splits)
  have step_path: "\<exists>k. f_depth ?fr - 1 = d - int k \<and> f_u ?fr \<in> set (nodes_at f root k)"
    if "f_pc ?fr = L86"
  proof -
    from P mem obtain k where k: "f_depth ?fr = d - int k" "f_url ?fr \<in> set (nodes_at f root k)"
      by blast
    from F0 that have "f_u ?fr \<in> set (succs f (f_url ?fr))"
      by (simp add: frame_inv_def fetched_ok_def succs_def)
    with k(2) have "f_u ?fr \<in> set (nodes_at f root (Suc k))" by auto
    moreover have "f_depth ?fr - 1 = d - int (Suc k)" using k(1) by simp
    ultimately show ?thesis by blast
  qed
  have B: "\<forall>fr \<in> set (threads s'). \<exists>k. f_depth fr = d - int k \<and> f_url fr \<in> set (nodes_at f root k)"
    using us i P mem step_path
    by (cases "f_pc ?fr")
       (auto simp add: unit_defs new_frame_def
             dest!: set_update_cases split: prod.splits list.splits if_splits)
  have C: "\<exists>z \<in> set (threads s'). sender r z" if r: "r \<in> set (sent s')" for r
  proof (cases "r \<in> set (sent s)")
    case True
    with S obtain fr0 where "fr0 \<in> set (threads s)" "sender r fr0" by blast
    then obtain j where j: "j < length (threads s)" "sender r (threads s ! j)"
      by (auto simp: in_set_conv_nth)
    have "j < length (threads s') \<and> sender r (threads s' ! j)"
      using us i j
      by (cases "f_pc ?fr")
         (auto simp add: unit_defs sender_def result_of_def nth_list_update nth_append
               split: prod.splits list.splits if_splits)
    then show ?thesis by (metis nth_mem)
  next
    case False
    have "i < length (threads s') \<and> sender r (threads s' ! i)"
      using us i r False F0
      by (cases "f_pc ?fr")
         (auto simp add: unit_defs sender_def result_of_def nth_list_update nth_append
               frame_inv_def fetched_ok_def
               split: prod.splits list.splits if_splits)
    then show ?thesis by (metis nth_mem)
  qed
  have G0: "\<forall>m. logged ?fr \<and> f_err ?fr = Some m \<longrightarrow> ErrLine m \<in> set (stdout s)"
    using G mem by blast
  have D: "ErrLine m \<in> set (stdout s')"
    if "fr \<in> set (threads s')" "logged fr" "f_err fr = Some m" for fr m
    using us i that G G0 F0
    by (cases "f_pc ?fr")
       (auto simp add: unit_defs new_frame_def logged_def frame_inv_def fetched_ok_def fetched_err_def
             dest!: set_update_cases split: prod.splits list.splits if_splits)
  show ?thesis
    using A B C D unfolding trace_inv_def by blast
qed

lemma trace_inv_run: "run f (Crawl_init root d) sched = Some s \<Longrightarrow> trace_inv f root d s"
  by (rule run_invariant[where P = "trace_inv f root d", OF trace_inv_init trace_inv_step])

subsection \<open>A goroutine run alone\<close>


lemma fetch_error_solo:
  assumes "i < length (threads s)" "panic s = None" "mainpc s \<noteq> M114"
    and "f_pc (threads s ! i) = L67" "f (f_url (threads s ! i)) = (b, us, Some e)"
  shows "run f s [Unit i, Unit i, Unit i, Unit i]
     = Some ((set_frame s i ((threads s ! i)
                \<lparr>f_body := b, f_urls := us, f_err := Some e,
                  f_pc := after_check (DoneRoutine (cache s))\<rparr>))
              \<lparr>cache := DoneRoutine (cache s), stdout := stdout s @ [ErrLine e]\<rparr>)"
  using assms
  by (simp add: step_def unit_step_def Let_def set_frame_def DoneRoutine_def after_check_def GetRoutineNum_def)


lemma IsVisited_routine_update [simp]: "IsVisited (c\<lparr>routine := r\<rparr>) v = IsVisited c v"
  by (simp add: IsVisited_def)

lemma loop_steps_routine_update [simp]: "loop_steps (c\<lparr>routine := r\<rparr>) es = loop_steps c es"
  by (induction es) auto



subsection \<open>Single goroutines and the results they send\<close>

lemma sender_fetch_ok:
  assumes "sender r fr" "frame_inv f fr"
  shows "fetch_err f (url r) = None \<and> url r = f_url fr \<and> 1 \<le> f_depth fr
         \<and> body r = fetch_body f (url r) \<and> err r = None"
  using assms
  by (cases "f_pc fr")
     (auto simp: sender_def frame_inv_def fetched_ok_def fetched_any_def result_of_def)

text \<open>
  C8. In any run of \<open>Crawl root d\<close>: every goroutine was started with \<open>depth = d - k\<close>,
  where \<open>k\<close> is the length of a path from \<open>root\<close> to its url along edges returned by
  successful fetches (one is subtracted per edge, line 86); every result sent comes
  from a goroutine with \<open>depth \<ge> 1\<close>; so every result sent is for a node at the end of
  such a path of fewer than \<open>d\<close> edges.
\<close>

theorem C8_depth_respected:
  assumes "run f (Crawl_init root d) sched = Some s"
  shows "(\<forall>fr \<in> set (threads s). \<exists>k. f_depth fr = d - int k \<and> f_url fr \<in> set (nodes_at f root k))
       \<and> (\<forall>r \<in> set (sent s). \<exists>fr \<in> set (threads s). r = result_of fr \<and> 1 \<le> f_depth fr)
       \<and> (\<forall>r \<in> set (sent s). \<exists>k. int k < d \<and> url r \<in> set (nodes_at f root k))"
proof -
  have inv: "trace_inv f root d s" using assms by (rule trace_inv_run)
  then have P: "\<forall>fr \<in> set (threads s). \<exists>k. f_depth fr = d - int k \<and> f_url fr \<in> set (nodes_at f root k)"
    by (simp add: trace_inv_def)
  have S: "\<exists>fr \<in> set (threads s). r = result_of fr \<and> 1 \<le> f_depth fr \<and> url r = f_url fr"
    if "r \<in> set (sent s)" for r
  proof -
    from inv that obtain fr where fr: "fr \<in> set (threads s)" "sender r fr"
      unfolding trace_inv_def by blast
    moreover from inv fr(1) have "frame_inv f fr" by (simp add: trace_inv_def)
    ultimately show ?thesis
      using sender_fetch_ok[of r fr f] by (auto simp: sender_def)
  qed
  have T: "\<exists>k. int k < d \<and> url r \<in> set (nodes_at f root k)" if "r \<in> set (sent s)" for r
  proof -
    from S[OF that] obtain fr where fr: "fr \<in> set (threads s)" "1 \<le> f_depth fr" "url r = f_url fr"
      by blast
    with P obtain k where "f_depth fr = d - int k" "f_url fr \<in> set (nodes_at f root k)" by blast
    with fr show ?thesis by (intro exI[of _ k]) auto
  qed
  from P S T show ?thesis by blast
qed

text \<open>
  C10. \<open>Fetch\<close> of the bundled \<open>fetcher\<close> is a function of the url alone: for each of
  the four keys it returns that entry's body and urls with a nil error, for every other
  url the empty body, no urls and the error \<open>not found: url\<close>; the error is non-nil
  exactly when the url is not a key.
\<close>

theorem C10_fakeFetcher_Fetch:
  "fakeFetcher_Fetch fetcher u =
     (if u = ''https://golang.org/'' then
        (''The Go Programming Language'',
         [''https://golang.org/pkg/'', ''https://golang.org/cmd/''], None)
      else if u = ''https://golang.org/pkg/'' then
        (''Packages'',
         [''https://golang.org/'', ''https://golang.org/cmd/'',
          ''https://golang.org/pkg/fmt/'', ''https://golang.org/pkg/os/''], None)
      else if u = ''https://golang.org/pkg/fmt/'' then
        (''Package fmt'', [''https://golang.org/'', ''https://golang.org/pkg/''], None)
      else if u = ''https://golang.org/pkg/os/'' then
        (''Package os'', [''https://golang.org/'', ''https://golang.org/pkg/''], None)
      else ('''', [], Some (''not found: '' @ u)))
   \<and> (fetch_err (fakeFetcher_Fetch fetcher) u \<noteq> None) = (u \<notin> dom fetcher)
   \<and> dom fetcher = {''https://golang.org/'', ''https://golang.org/pkg/'',
                  ''https://golang.org/pkg/fmt/'', ''https://golang.org/pkg/os/''}"
proof -
  have 1: "fakeFetcher_Fetch fetcher u =
     (if u = ''https://golang.org/'' then
        (''The Go Programming Language'',
         [''https://golang.org/pkg/'', ''https://golang.org/cmd/''], None)
      else if u = ''https://golang.org/pkg/'' then
        (''Packages'',
         [''https://golang.org/'', ''https://golang.org/cmd/'',
          ''https://golang.org/pkg/fmt/'', ''https://golang.org/pkg/os/''], None)
      else if u = ''https://golang.org/pkg/fmt/'' then
        (''Package fmt'', [''https://golang.org/'', ''https://golang.org/pkg/''], None)
      else if u = ''https://golang.org/pkg/os/'' then
        (''Package os'', [''https://golang.org/'', ''https://golang.org/pkg/''], None)
      else ('''', [], Some (''not found: '' @ u)))"
    by (simp add: fakeFetcher_Fetch_def fetcher_def fetcher_entries_def)
  have 2: "(fetch_err (fakeFetcher_Fetch fetcher) u \<noteq> None) = (u \<notin> dom fetcher)"
    by (auto simp: fetch_err_def fakeFetcher_Fetch_def split: option.splits)
  show ?thesis using 1 2 fetcher_dom by simp
qed



text \<open>
  C4. In any run of \<open>Crawl\<close>, a goroutine whose url makes \<open>Fetch\<close> return an error is never
  at the send of line 81 nor in the loop of lines 83 to 88 (it sends nothing and starts
  no goroutine), no result is ever sent for a url whose fetch fails, and once the
  goroutine is past line 70 its error is on the standard output. When it stands in front
  of its \<open>Fetch\<close>, its next four steps run alone change the state in exactly this: its own
  frame (now after its read of the counter), one line with the error appended to the
  output, and \<open>routine\<close> lower by exactly one. Nothing else moves: the other frames, the
  channel, the visited map and \<open>main\<close> are as before, and nothing has panicked. Of all
  the steps such a goroutine ever takes, the one at line 71 lowers \<open>routine\<close> by one and
  every other one leaves \<open>routine\<close> as it is; once it is past line 71, no step of it
  changes the tracker at all.
\<close>

theorem C4_fetch_error_isolated:
  assumes "run f (Crawl_init root d) sched = Some s"
    and "i < length (threads s)"
    and "fetch_err f (f_url (threads s ! i)) = Some e"
  shows "f_pc (threads s ! i) \<notin> {L81, L83, L84, L85, L86, L90, L91}
       \<and> (\<forall>r \<in> set (sent s). fetch_err f (url r) = None)
       \<and> (0 < f_depth (threads s ! i) \<and> past_log (f_pc (threads s ! i))
            \<longrightarrow> ErrLine e \<in> set (stdout s))
       \<and> (f_pc (threads s ! i) = L67 \<and> panic s = None \<and> mainpc s \<noteq> M114 \<longrightarrow>
            run f s [Unit i, Unit i, Unit i, Unit i]
              = Some ((set_frame s i ((threads s ! i)
                         \<lparr>f_body := fetch_body f (f_url (threads s ! i)),
                           f_urls := fetch_urls f (f_url (threads s ! i)),
                           f_err := Some e,
                           f_pc := (if routine (cache s) - 1 \<le> 0 then L62 else Returned)\<rparr>))
                       \<lparr>cache := (cache s)\<lparr>routine := routine (cache s) - 1\<rparr>,
                         stdout := stdout s @ [ErrLine e]\<rparr>))
       \<and> (\<forall>s'. step f s (Unit i) = Some s' \<longrightarrow>
            routine (cache s')
              = (if f_pc (threads s ! i) = L71 then routine (cache s) - 1 else routine (cache s)))
       \<and> (in_check (f_pc (threads s ! i)) \<longrightarrow>
            (\<forall>s'. step f s (Unit i) = Some s' \<longrightarrow> cache s' = cache s))"
proof -
  let ?fr = "threads s ! i"
  have inv: "trace_inv f root d s" using assms(1) by (rule trace_inv_run)
  have mem: "?fr \<in> set (threads s)" using assms(2) by simp
  with inv have F0: "frame_inv f ?fr" by (simp add: trace_inv_def)
  have A: "f_pc ?fr \<notin> {L81, L83, L84, L85, L86, L90, L91}"
    using F0 assms(3) by (cases "f_pc ?fr") (auto simp: frame_inv_def fetched_ok_def)
  have B: "fetch_err f (url r) = None" if "r \<in> set (sent s)" for r
  proof -
    from inv that obtain fr where fr: "fr \<in> set (threads s)" "sender r fr"
      unfolding trace_inv_def by blast
    moreover from inv fr(1) have "frame_inv f fr" by (simp add: trace_inv_def)
    ultimately show ?thesis using sender_fetch_ok by blast
  qed
  have C: "ErrLine e \<in> set (stdout s)" if "0 < f_depth ?fr" "past_log (f_pc ?fr)"
  proof -
    have "f_err ?fr = Some e"
      using F0 that assms(3)
      by (cases "f_pc ?fr") (auto simp: frame_inv_def fetched_err_def fetched_any_def)
    moreover from this that have "logged ?fr" by (simp add: logged_def)
    ultimately show ?thesis using inv mem unfolding trace_inv_def by blast
  qed
  have D: "run f s [Unit i, Unit i, Unit i, Unit i]
              = Some ((set_frame s i (?fr
                         \<lparr>f_body := fetch_body f (f_url ?fr),
                           f_urls := fetch_urls f (f_url ?fr),
                           f_err := Some e,
                           f_pc := (if routine (cache s) - 1 \<le> 0 then L62 else Returned)\<rparr>))
                       \<lparr>cache := (cache s)\<lparr>routine := routine (cache s) - 1\<rparr>,
                         stdout := stdout s @ [ErrLine e]\<rparr>)"
    if "f_pc ?fr = L67" "panic s = None" "mainpc s \<noteq> M114"
  proof -
    have "f (f_url ?fr) = (fetch_body f (f_url ?fr), fetch_urls f (f_url ?fr), Some e)"
      using assms(3)
      by (cases "f (f_url ?fr)") (simp add: fetch_body_def fetch_urls_def fetch_err_def)
    with assms(2) that
    have "run f s [Unit i, Unit i, Unit i, Unit i]
        = Some ((set_frame s i (?fr
                   \<lparr>f_body := fetch_body f (f_url ?fr), f_urls := fetch_urls f (f_url ?fr),
                     f_err := Some e, f_pc := after_check (DoneRoutine (cache s))\<rparr>))
                 \<lparr>cache := DoneRoutine (cache s), stdout := stdout s @ [ErrLine e]\<rparr>)"
      by (intro fetch_error_solo) auto
    then show ?thesis
      by (simp add: DoneRoutine_def after_check_def GetRoutineNum_def)
  qed
  have E: "cache s' = cache s" if "in_check (f_pc ?fr)" "step f s (Unit i) = Some s'" for s'
  proof -
    from that(2) have "unit_step f s i = Some s'" by (auto dest: step_Unit_D)
    with that(1) show ?thesis
      by (cases "f_pc ?fr") (auto simp: unit_defs split: if_splits)
  qed
  have F: "routine (cache s')
      = (if f_pc ?fr = L71 then routine (cache s) - 1 else routine (cache s))"
    if "step f s (Unit i) = Some s'" for s'
  proof -
    from that have "unit_step f s i = Some s'" by (auto dest: step_Unit_D)
    with A show ?thesis
      by (cases "f_pc ?fr") (auto simp: unit_defs split: if_splits prod.splits)
  qed
  from A B C D E F show ?thesis by blast
qed

text \<open>
  The theorem of C4 in \<open>main\<close>, at the goroutine of \<open>cmd/\<close>, whose fetch fails: the
  counter is 3 before its four steps and 2 after them.
\<close>

theorem C4_witness:
  "f_pc (threads (the (main_run sched_cmd_fetch)) ! 2) \<noteq> L81
   \<and> routine (cache (the (main_run sched_cmd_fetch))) = 3
   \<and> run (fakeFetcher_Fetch fetcher) (the (main_run sched_cmd_fetch)) [Unit 2, Unit 2, Unit 2, Unit 2]
     = Some ((set_frame (the (main_run sched_cmd_fetch)) 2
                ((threads (the (main_run sched_cmd_fetch)) ! 2)
                   \<lparr>f_body := '''', f_urls := [],
                     f_err := Some ''not found: https://golang.org/cmd/'',
                     f_pc := Returned\<rparr>))
              \<lparr>cache := (cache (the (main_run sched_cmd_fetch)))\<lparr>routine := 2\<rparr>,
                stdout := stdout (the (main_run sched_cmd_fetch))
                           @ [ErrLine ''not found: https://golang.org/cmd/'']\<rparr>)"
proof -
  let ?s = "the (main_run sched_cmd_fetch)"
  let ?F = "fakeFetcher_Fetch fetcher"
  have "main_run sched_cmd_fetch \<noteq> None" by code_simp
  then have r: "run ?F (Crawl_init ''https://golang.org/'' 4) sched_cmd_fetch = Some ?s"
    by (simp add: main_run_def)
  have 1: "2 < length (threads ?s)" by code_simp
  have 2: "fetch_err ?F (f_url (threads ?s ! 2)) = Some ''not found: https://golang.org/cmd/''"
    by code_simp
  have 3: "f_pc (threads ?s ! 2) = L67" "panic ?s = None" "mainpc ?s \<noteq> M114"
    by code_simp+
  have 4: "fetch_body ?F (f_url (threads ?s ! 2)) = ''''"
    "fetch_urls ?F (f_url (threads ?s ! 2)) = []"
    "routine (cache ?s) = 3"
    by code_simp+
  from C4_fetch_error_isolated[OF r 1 2] 3 4 show ?thesis by simp
qed

text \<open>
  The theorem of C8 in \<open>main\<close>, for the result of \<open>pkg/fmt/\<close>.
\<close>

theorem C8_witness:
  "\<lparr>url = ''https://golang.org/pkg/fmt/'', body = ''Package fmt'', err = None\<rparr>
     \<in> set (sent (the (main_run sched_double_close)))
   \<and> (\<exists>k. int k < 4 \<and> ''https://golang.org/pkg/fmt/''
        \<in> set (nodes_at (fakeFetcher_Fetch fetcher) ''https://golang.org/'' k))"
proof -
  let ?s = "the (main_run sched_double_close)"
  have "main_run sched_double_close \<noteq> None" by code_simp
  then have r: "run (fakeFetcher_Fetch fetcher) (Crawl_init ''https://golang.org/'' 4)
      sched_double_close = Some ?s"
    by (simp add: main_run_def)
  have m: "\<lparr>url = ''https://golang.org/pkg/fmt/'', body = ''Package fmt'', err = None\<rparr>
     \<in> set (sent ?s)" by code_simp
  from C8_depth_respected[OF r] m show ?thesis by fastforce
qed

subsection \<open>Where a run can end\<close>

lemma close_inv_init: "close_inv (Crawl_init u d)"
  by (simp add: close_inv_def Crawl_init_def live_def owed_def new_frame_def)

lemma close_inv_step:
  assumes cinv: "counter_inv s" and inv: "close_inv s" and st: "step f s a = Some s'"
  shows "close_inv s'"
proof (cases a)
  case Main
  with st inv show ?thesis
    by (auto simp: close_inv_def step_def main_step_def live_def
        split: if_splits main_pc.splits)
next
  case (Unit i)
  with st have i: "i < length (threads s)" and us: "unit_step f s i = Some s'"
    and np: "panic s = None" and nm: "mainpc s \<noteq> M114"
    by (auto dest: step_Unit_D)
  let ?fr = "threads s ! i"
  have cinv': "counter_inv s'" using cinv st by (rule counter_inv_step)
  have i': "i < length (threads s')"
    using us i by (cases "f_pc ?fr")
      (auto simp: unit_defs split: prod.splits list.splits if_splits)
  have le': "owed (threads s' ! i) \<le> live s'" using i' by (rule owed_le_live)
  have r: "routine (cache s) = live s" using cinv by (simp add: counter_inv_def)
  have r': "routine (cache s') = live s'" using cinv' by (simp add: counter_inv_def)
  have old: "live s = 0 \<longrightarrow> closed s \<or> (\<exists>fr \<in> set (threads s). in_check (f_pc fr))"
    using inv by (simp add: close_inv_def)
  have A: "closed s' \<or> in_check (f_pc (threads s' ! i))" if z: "live s' = 0"
    using us i le' z r r'
    by (cases "f_pc ?fr")
       (auto simp add: unit_defs owed_def nth_append
             split: prod.splits list.splits if_splits)
  have B: "panic s' \<noteq> None \<longrightarrow> closed s'"
    using us i np
    by (cases "f_pc ?fr")
       (auto simp add: unit_defs split: prod.splits list.splits if_splits)
  have C: "mainpc s' = M114 \<longrightarrow> closed s'"
    using us i nm
    by (cases "f_pc ?fr")
       (auto simp add: unit_defs split: prod.splits list.splits if_splits)
  from A i' have "live s' = 0 \<longrightarrow> closed s' \<or> (\<exists>fr \<in> set (threads s'). in_check (f_pc fr))"
    by (metis nth_mem)
  with B C show ?thesis by (simp add: close_inv_def)
qed

lemma run_inv_run: "run f (Crawl_init u d) sched = Some s \<Longrightarrow> counter_inv s \<and> close_inv s"
  by (rule run_invariant[where P = "\<lambda>s. counter_inv s \<and> close_inv s"])
     (auto simp: counter_inv_init close_inv_init intro: counter_inv_step close_inv_step)

lemma stuck_iff: "stuck f s \<longleftrightarrow> (\<forall>a. step f s a = None)"
proof
  assume s: "stuck f s"
  show "\<forall>a. step f s a = None"
  proof
    fix a show "step f s a = None"
    proof (cases a)
      case Main
      with s show ?thesis by (simp add: stuck_def)
    next
      case (Unit i)
      show ?thesis
      proof (cases "i < length (threads s)")
        case True
        with s Unit show ?thesis by (simp add: stuck_def list_all_iff)
      next
        case False
        with Unit show ?thesis by (simp add: step_def)
      qed
    qed
  qed
next
  assume "\<forall>a. step f s a = None"
  then show "stuck f s" by (simp add: stuck_def list_all_iff)
qed

lemma stuck_cases:
  assumes "stuck f s"
  shows "panic s \<noteq> None \<or> mainpc s = M114
       \<or> (mainpc s = M111 \<and> \<not> closed s \<and> (\<forall>fr \<in> set (threads s). f_pc fr = Returned))"
proof (cases "panic s = None \<and> mainpc s \<noteq> M114")
  case False
  then show ?thesis by auto
next
  case True
  from assms have m: "step f s Main = None" by (simp add: stuck_iff)
  with True have mc: "mainpc s = M111 \<and> \<not> closed s"
    by (auto simp: step_def main_step_def split: main_pc.splits if_splits)
  have "f_pc fr = Returned" if "fr \<in> set (threads s)" for fr
  proof -
    from that obtain i where i: "i < length (threads s)" "threads s ! i = fr"
      by (auto simp: in_set_conv_nth)
    from assms have "step f s (Unit i) = None" by (simp add: stuck_iff)
    with True i(1) have "unit_step f s i = None" by (simp add: step_def)
    with i mc show ?thesis
      by (cases "f_pc fr") (auto simp: unit_defs split: prod.splits list.splits if_splits)
  qed
  with mc show ?thesis by blast
qed

lemma stuck_closed_or_leak:
  assumes "run f (Crawl_init u d) sched = Some s" "stuck f s"
  shows "closed s \<or> (\<exists>fr \<in> set (threads s). f_depth fr \<le> 0 \<and> f_pc fr = Returned)"
proof -
  from assms(1) have ci: "counter_inv s" and cl: "close_inv s"
    using run_inv_run by blast+
  from stuck_cases[OF assms(2)] show ?thesis
  proof (elim disjE)
    assume "panic s \<noteq> None" with cl show ?thesis by (simp add: close_inv_def)
  next
    assume "mainpc s = M114" with cl show ?thesis by (simp add: close_inv_def)
  next
    assume a: "mainpc s = M111 \<and> \<not> closed s \<and> (\<forall>fr \<in> set (threads s). f_pc fr = Returned)"
    then have "\<not> (\<exists>fr \<in> set (threads s). in_check (f_pc fr))" by auto
    with cl a have "live s \<noteq> 0" by (auto simp: close_inv_def)
    then obtain fr where "fr \<in> set (threads s)" "owed fr \<noteq> 0"
      by (auto simp: live_zero_iff)
    with a have "f_depth fr \<le> 0 \<and> f_pc fr = Returned" by (auto simp: owed_zero_iff)
    with \<open>fr \<in> set (threads s)\<close> show ?thesis by blast
  qed
qed

subsection \<open>Every step uses up the bound\<close>

lemma sum_list_update_less:
  fixes g :: "'a \<Rightarrow> nat"
  shows "i < length xs \<Longrightarrow> g x + k < g (xs ! i) \<Longrightarrow>
    sum_list (map g (xs[i := x])) + k < sum_list (map g xs)"
proof (induction xs arbitrary: i)
  case Nil
  then show ?case by simp
next
  case (Cons a xs)
  then show ?case by (cases i) (auto simp: add.assoc)
qed

lemma weight_new_frame: "weight f (new_frame u d) = cost f (nat d) u"
  by (simp add: weight_def new_frame_def)

lemma cost_pos: "0 < d \<Longrightarrow> cost f (nat d) u = 3 + fetch_weight f d u"
proof -
  assume "0 < d"
  then obtain n where n: "nat d = Suc n" "nat (d - 1) = n"
    by (cases "nat d") auto
  then show ?thesis by (simp add: fetch_weight_def loop_weight_def)
qed

lemma sum_plain:
  fixes g :: "'a \<Rightarrow> nat"
  shows "i < length xs \<Longrightarrow> g x < g (xs ! i) \<Longrightarrow>
    sum_list (map g (xs[i := x])) < sum_list (map g xs)"
  using sum_list_update_less[of i xs g x 0] by simp

lemma sum_spawn:
  fixes g :: "'a \<Rightarrow> nat"
  shows "i < length xs \<Longrightarrow> g x + g y < g (xs ! i) \<Longrightarrow>
    sum_list (map g (xs[i := x])) + g y < sum_list (map g xs)"
  using sum_list_update_less[of i xs g x "g y"] by simp

lemma sum_send:
  fixes g :: "'a \<Rightarrow> nat"
  shows "i < length xs \<Longrightarrow> g x + 1 < g (xs ! i) \<Longrightarrow>
    Suc (sum_list (map g (xs[i := x]))) < sum_list (map g xs)"
  using sum_list_update_less[of i xs g x 1] by simp

lemma loop_weight_Cons:
  "loop_weight f d (u # us) = 4 + cost f (nat (d - 1)) u + loop_weight f d us"
  by (simp add: loop_weight_def)

lemma loop_weight_Nil: "loop_weight f d [] = 4"
  by (simp add: loop_weight_def)

lemma remaining_step:
  assumes st: "step f s a = Some s'"
  shows "remaining f s' < remaining f s"
proof (cases a)
  case Main
  with st show ?thesis
    by (auto simp: remaining_def step_def main_step_def split: if_splits main_pc.splits)
next
  case (Unit i)
  with st have i: "i < length (threads s)" and us: "unit_step f s i = Some s'"
    and np: "panic s = None" and nm: "mainpc s \<noteq> M114"
    by (auto dest: step_Unit_D)
  let ?fr = "threads s ! i"
  have mpos: "0 < main_weight (mainpc s)" using nm by (cases "mainpc s") auto
  show ?thesis
  proof (cases "f_pc ?fr")
    case L57
    then show ?thesis
      using us i np mpos
      by (auto simp add: unit_defs remaining_def weight_def cost_pos intro!: sum_plain)
  next
    case L66
    then show ?thesis
      using us i np mpos
      by (auto simp add: unit_defs remaining_def weight_def intro!: sum_plain)
  next
    case L67
    then show ?thesis
      using us i np mpos
      by (auto simp add: unit_defs remaining_def weight_def fetch_weight_def fetch_err_def fetch_urls_def
          intro!: sum_plain split: prod.splits)
  next
    case L81
    then show ?thesis
      using us i np mpos
      by (auto simp add: unit_defs remaining_def weight_def intro!: sum_send split: if_splits)
  next
    case L83
    then show ?thesis
      using us i np mpos
      by (auto simp add: unit_defs remaining_def weight_def loop_weight_Cons loop_weight_Nil
          intro!: sum_plain split: list.splits)
  next
    case L84
    then show ?thesis
      using us i np mpos
      by (auto simp add: unit_defs remaining_def weight_def intro!: sum_plain)
  next
    case L86
    let ?new = "new_frame (f_u ?fr) (f_depth ?fr - 1)"
    from us L86 have s': "s' = s\<lparr>threads := (threads s)[i := ?fr\<lparr>f_pc := L83\<rparr>] @ [?new]\<rparr>"
      by (simp add: unit_defs)
    have "sum_list (map (weight f) ((threads s)[i := ?fr\<lparr>f_pc := L83\<rparr>])) + weight f ?new
        < sum_list (map (weight f) (threads s))"
      by (rule sum_spawn) (use i L86 in \<open>simp_all add: weight_def new_frame_def\<close>)
    then show ?thesis using s' np by (simp add: remaining_def)
  next
    case L62
    then show ?thesis
      using us i np mpos
      by (auto simp add: unit_defs remaining_def weight_def intro!: sum_plain split: if_splits)
  next
    case Returned
    then show ?thesis using us by (simp add: unit_defs)
  qed (use us i np mpos in \<open>auto simp add: unit_defs remaining_def weight_def intro!: sum_plain\<close>)
qed

text \<open>
  Hence no run is longer than the bound of its first state, and every run can be
  continued to a state in which no actor moves: the process returns, panics or
  deadlocks.
\<close>

lemma run_remaining:
  "run f s sched = Some s' \<Longrightarrow> length sched + remaining f s' \<le> remaining f s"
proof (induction sched arbitrary: s)
  case Nil
  then show ?case by simp
next
  case (Cons a sched)
  then obtain s1 where s1: "step f s a = Some s1" "run f s1 sched = Some s'"
    by (auto split: option.splits)
  from Cons.IH[OF s1(2)] remaining_step[OF s1(1)] show ?case by simp
qed

lemma run_to_stuck: "\<exists>sched s'. run f s sched = Some s' \<and> stuck f s'"
proof (induction "remaining f s" arbitrary: s rule: less_induct)
  case less
  show ?case
  proof (cases "stuck f s")
    case True
    then have "run f s [] = Some s \<and> stuck f s" by simp
    then show ?thesis by blast
  next
    case False
    then obtain a s1 where s1: "step f s a = Some s1"
      by (auto simp: stuck_iff)
    from less[OF remaining_step[OF s1]] obtain sched s' where
      "run f s1 sched = Some s'" "stuck f s'" by blast
    with s1 have "run f s (a # sched) = Some s' \<and> stuck f s'" by simp
    then show ?thesis by blast
  qed
qed

subsection \<open>Every result sent is printed by \<open>main\<close>, in order\<close>

lemma found_pairs_append [simp]:
  "found_pairs (xs @ ys) = found_pairs xs @ found_pairs ys"
  by (induction xs rule: found_pairs.induct) auto

lemma print_inv_init: "print_inv (Crawl_init u d)"
  by (simp add: print_inv_def Crawl_init_def)

lemma print_inv_step:
  assumes inv: "print_inv s" and st: "step f s a = Some s'"
  shows "print_inv s'"
proof (cases a)
  case Main
  with st inv show ?thesis
    by (auto simp: print_inv_def step_def main_step_def split: if_splits main_pc.splits)
next
  case (Unit i)
  with st have us: "unit_step f s i = Some s'"
    by (auto dest: step_Unit_D)
  show ?thesis
    using us inv
    by (cases "f_pc (threads s ! i)")
       (auto simp: unit_defs print_inv_def result_of_def split: prod.splits list.splits if_splits)
qed

lemma print_inv_run: "run f (Crawl_init u d) sched = Some s \<Longrightarrow> print_inv s"
  by (rule run_invariant[where P = print_inv, OF print_inv_init print_inv_step])

subsection \<open>The scenario of the specification\<close>

lemma scen_inv_init: "scen_inv ba bb e (Crawl_init ''A'' 2)"
  by (simp add: scen_inv_def Crawl_init_def root_ok_def new_frame_def sent_by_def
      AddRoutine_def new_SafeCache_def IsVisited_def)

lemma b_ok_new: "b_ok bb (new_frame ''B'' 1)"
  by (simp add: b_ok_def new_frame_def)

lemma c_ok_new: "c_ok e (new_frame ''C'' 1)"
  by (simp add: c_ok_def new_frame_def)

lemma sent_by_new: "sent_by u b (new_frame v d) = []"
  by (simp add: sent_by_def new_frame_def)

lemma new_frame_pc: "f_pc (new_frame v d) = L57"
  by (simp add: new_frame_def)

lemmas step_defs = unit_step_def Let_def set_frame_def after_check_def GetRoutineNum_def
  DoneRoutine_def AddRoutine_def IsVisited_Visited result_of_def

lemma scen_step_one:
  assumes sc: "scenario_fetcher f ba bb e" and inv: "scen_inv ba bb e s"
    and us: "unit_step f s 0 = Some s'" and one: "threads s = [r]"
  shows "scen_inv ba bb e s'"
proof -
  from inv one have R: "root_ok ba 1 r" and S: "sent s = sent_by ''A'' ba r"
    and V: "f_pc r \<noteq> L57 \<and> f_pc r \<noteq> L66 \<longrightarrow> IsVisited (cache s) ''A''"
    and N: "\<not> IsVisited (cache s) ''B''" "\<not> IsVisited (cache s) ''C''"
    by (simp_all add: scen_inv_def)
  from sc have f: "f ''A'' = (ba, [''B'', ''C''], None)" by (simp add: scenario_fetcher_def)
  show ?thesis
    using R S V N f us one
    by (cases "f_pc r")
       (auto simp add: step_defs scen_inv_def root_ok_def sent_by_def[of "''A''"]
          b_ok_new sent_by_new split: if_splits)
qed


lemma scen_step_two:
  assumes sc: "scenario_fetcher f ba bb e" and inv: "scen_inv ba bb e s"
    and us: "unit_step f s i = Some s'" and two: "threads s = [r, b]" and i: "i < 2"
  shows "scen_inv ba bb e s'"
proof -
  from inv two have R: "root_ok ba 2 r" and B: "b_ok bb b"
    and S: "sent s = sent_by ''A'' ba r @ sent_by ''B'' bb b"
    and V: "IsVisited (cache s) ''A''" and N: "\<not> IsVisited (cache s) ''C''"
    by (simp_all add: scen_inv_def)
  from sc have fa: "f ''A'' = (ba, [''B'', ''C''], None)" and fb: "f ''B'' = (bb, [''A''], None)"
    by (simp_all add: scenario_fetcher_def)
  from i have "i = 0 \<or> i = Suc 0" by auto
  then show ?thesis
  proof
    assume "i = 0"
    then show ?thesis
      using R B S V N fa us two
      by (cases "f_pc r")
         (auto simp add: step_defs scen_inv_def root_ok_def sent_by_def[of "''A''"]
            c_ok_new sent_by_new new_frame_pc split: if_splits)
  next
    assume "i = Suc 0"
    then show ?thesis
      using R B S V N fb us two
      by (cases "f_pc b")
         (auto simp add: step_defs scen_inv_def b_ok_def sent_by_def[of "''B''"]
            split: if_splits)
  qed
qed

lemma scen_step_three:
  assumes sc: "scenario_fetcher f ba bb e" and inv: "scen_inv ba bb e s"
    and us: "unit_step f s i = Some s'" and three: "threads s = [r, b, c]" and i: "i < 3"
  shows "scen_inv ba bb e s'"
proof -
  from inv three have R: "root_ok ba 3 r" and B: "b_ok bb b" and C: "c_ok e c"
    and S: "sent s = sent_by ''A'' ba r @ sent_by ''B'' bb b"
    and V: "IsVisited (cache s) ''A''"
    and G: "past_log (f_pc c) \<longrightarrow> ErrLine e \<in> set (stdout s)"
    by (simp_all add: scen_inv_def)
  from sc have fa: "f ''A'' = (ba, [''B'', ''C''], None)" and fb: "f ''B'' = (bb, [''A''], None)"
    by (simp_all add: scenario_fetcher_def)
  from sc obtain bc uc where fc: "f ''C'' = (bc, uc, Some e)"
    by (cases "f ''C''") (auto simp: scenario_fetcher_def fetch_err_def)
  from i have "i = 0 \<or> i = Suc 0 \<or> i = Suc (Suc 0)" by auto
  then show ?thesis
  proof (elim disjE)
    assume "i = 0"
    then show ?thesis
      using R B C S V G fa us three
      by (cases "f_pc r")
         (auto simp add: step_defs scen_inv_def root_ok_def sent_by_def[of "''A''"]
            split: if_splits)
  next
    assume "i = Suc 0"
    then show ?thesis
      using R B C S V G fb us three
      by (cases "f_pc b")
         (auto simp add: step_defs scen_inv_def b_ok_def sent_by_def[of "''B''"]
            split: if_splits)
  next
    assume "i = Suc (Suc 0)"
    then show ?thesis
      using R B C S V G fc us three
      by (cases "f_pc c")
         (auto simp add: step_defs scen_inv_def c_ok_def split: if_splits)
  qed
qed

lemma scen_inv_step:
  assumes sc: "scenario_fetcher f ba bb e" and inv: "scen_inv ba bb e s"
    and st: "step f s a = Some s'"
  shows "scen_inv ba bb e s'"
proof (cases a)
  case Main
  from inv consider
      (one) r where "threads s = [r]"
    | (two) r b where "threads s = [r, b]"
    | (three) r b c where "threads s = [r, b, c]"
    by (auto simp: scen_inv_def split: list.splits)
  then show ?thesis
    using Main st inv
    by cases (auto simp: scen_inv_def step_def main_step_def split: if_splits main_pc.splits)
next
  case (Unit i)
  with st have i: "i < length (threads s)" and us: "unit_step f s i = Some s'"
    by (auto dest: step_Unit_D)
  from inv consider
      (one) r where "threads s = [r]"
    | (two) r b where "threads s = [r, b]"
    | (three) r b c where "threads s = [r, b, c]"
    by (auto simp: scen_inv_def split: list.splits)
  then show ?thesis
  proof cases
    case one
    with i us show ?thesis using scen_step_one[OF sc inv _ one] by simp
  next
    case two
    with i us show ?thesis using scen_step_two[OF sc inv _ two] by simp
  next
    case three
    with i us show ?thesis using scen_step_three[OF sc inv _ three] by simp
  qed
qed

lemma scen_inv_run:
  "scenario_fetcher f ba bb e \<Longrightarrow> run f (Crawl_init ''A'' 2) sched = Some s \<Longrightarrow> scen_inv ba bb e s"
  by (rule run_invariant[where P = "scen_inv ba bb e", OF scen_inv_init])
     (auto intro: scen_inv_step)

lemma scen_spawned:
  assumes "scen_inv ba bb e s"
  shows "spawned s \<in> {[(''A'', 2)], [(''A'', 2), (''B'', 1)], [(''A'', 2), (''B'', 1), (''C'', 1)]}"
  using assms
  by (auto simp: scen_inv_def spawned_def frame_key_def root_ok_def b_ok_def c_ok_def
      split: list.splits)

lemma scen_sent:
  assumes "scen_inv ba bb e s"
  shows "sent s \<in> {[], [\<lparr>url = ''A'', body = ba, err = None\<rparr>],
          [\<lparr>url = ''A'', body = ba, err = None\<rparr>, \<lparr>url = ''B'', body = bb, err = None\<rparr>]}"
proof -
  from assms consider
      (one) r where "threads s = [r]"
    | (two) r b where "threads s = [r, b]"
    | (three) r b c where "threads s = [r, b, c]"
    by (auto simp: scen_inv_def split: list.splits)
  then show ?thesis
  proof cases
    case one
    with assms show ?thesis by (auto simp: scen_inv_def sent_by_def)
  next
    case two
    with assms have "root_ok ba 2 r" "sent s = sent_by ''A'' ba r @ sent_by ''B'' bb b"
      by (simp_all add: scen_inv_def)
    then show ?thesis
      by (cases "f_pc r") (auto simp: sent_by_def root_ok_def)
  next
    case three
    with assms have "root_ok ba 3 r" "sent s = sent_by ''A'' ba r @ sent_by ''B'' bb b"
      by (simp_all add: scen_inv_def)
    then show ?thesis
      by (cases "f_pc r") (auto simp: sent_by_def root_ok_def)
  qed
qed

lemma scen_closed:
  assumes inv: "scen_inv ba bb e s" and dec: "\<forall>fr \<in> set (threads s). decremented fr"
  shows "spawned s = [(''A'', 2), (''B'', 1), (''C'', 1)]
       \<and> sent s = [\<lparr>url = ''A'', body = ba, err = None\<rparr>, \<lparr>url = ''B'', body = bb, err = None\<rparr>]
       \<and> ErrLine e \<in> set (stdout s)"
proof -
  from inv consider
      (one) r where "threads s = [r]"
    | (two) r b where "threads s = [r, b]"
    | (three) r b c where "threads s = [r, b, c]"
    by (auto simp: scen_inv_def split: list.splits)
  then show ?thesis
  proof cases
    case one
    with inv dec have "root_ok ba 1 r" "decremented r" by (simp_all add: scen_inv_def)
    then show ?thesis by (cases "f_pc r") (auto simp: root_ok_def decremented_def)
  next
    case two
    with inv dec have "root_ok ba 2 r" "decremented r" by (simp_all add: scen_inv_def)
    then show ?thesis by (cases "f_pc r") (auto simp: root_ok_def decremented_def)
  next
    case three
    with inv dec have R: "root_ok ba 3 r" "decremented r" and B: "b_ok bb b" "decremented b"
      and C: "c_ok e c" "decremented c"
      and S: "sent s = sent_by ''A'' ba r @ sent_by ''B'' bb b"
      and G: "past_log (f_pc c) \<longrightarrow> ErrLine e \<in> set (stdout s)"
      by (simp_all add: scen_inv_def)
    from R have r: "past_send (f_pc r)" "f_url r = ''A''" "f_depth r = 2"
      by (cases "f_pc r"; simp add: root_ok_def decremented_def)+
    from B have b: "past_send (f_pc b)" "f_url b = ''B''" "f_depth b = 1"
      by (cases "f_pc b"; simp add: b_ok_def decremented_def)+
    from C have c: "past_log (f_pc c)" "f_url c = ''C''" "f_depth c = 1"
      by (cases "f_pc c"; simp add: c_ok_def decremented_def)+
    from three r b c S G show ?thesis
      by (simp add: spawned_def frame_key_def sent_by_def)
  qed
qed

lemma scen_depths:
  assumes "scen_inv ba bb e s" "fr \<in> set (threads s)"
  shows "0 < f_depth fr"
  using assms
  by (auto simp: scen_inv_def root_ok_def b_ok_def c_ok_def split: list.splits)

lemma scen_remaining:
  assumes "scenario_fetcher f ba bb e"
  shows "remaining f (Crawl_init ''A'' 2) = 39"
proof -
  from assms have fa: "fetch_err f ''A'' = None" "fetch_urls f ''A'' = [''B'', ''C'']"
    and fb: "fetch_err f ''B'' = None" "fetch_urls f ''B'' = [''A'']"
    and fc: "fetch_err f ''C'' \<noteq> None"
    by (simp_all add: scenario_fetcher_def fetch_err_def fetch_urls_def)
  have 2: "(2::nat) = Suc (Suc 0)" by simp
  show ?thesis
    by (simp add: remaining_def Crawl_init_def weight_def new_frame_def 2 fa fb fc)
qed

text \<open>
  C6. For every fetcher that fits the scenario (\<open>A\<close> with the edges \<open>B\<close> and \<open>C\<close>, \<open>B\<close> with
  the edge \<open>A\<close>, the fetch of \<open>C\<close> failing with \<open>e\<close>) and every schedule of
  \<open>Crawl A 2\<close>: the goroutines started are, in this order, those of \<open>A\<close>, \<open>B\<close> and \<open>C\<close>
  and no other (none is started again for \<open>A\<close>); the results sent are those of \<open>A\<close> and
  then \<open>B\<close> and no other; whenever the channel is closed, all three goroutines have been
  started, both results have been sent and the error of \<open>C\<close> has been printed; a run
  that cannot go on has closed the channel; when \<open>main\<close> has returned it has printed
  the results of \<open>A\<close> and \<open>B\<close> and no other; and no run has more than 39 steps. So every
  run ends, within 39 steps, with the channel closed after exactly the results of \<open>A\<close>
  and \<open>B\<close> and the report of the error of \<open>C\<close>. (Some of these runs end in the panic
  of a second \<open>close\<close>, after the channel has been closed.)
\<close>

theorem C6_scenario:
  assumes "scenario_fetcher f ba bb e" and "run f (Crawl_init ''A'' 2) sched = Some s"
  shows "spawned s \<in> {[(''A'', 2)], [(''A'', 2), (''B'', 1)], [(''A'', 2), (''B'', 1), (''C'', 1)]}
       \<and> sent s \<in> {[], [\<lparr>url = ''A'', body = ba, err = None\<rparr>],
            [\<lparr>url = ''A'', body = ba, err = None\<rparr>, \<lparr>url = ''B'', body = bb, err = None\<rparr>]}
       \<and> (closed s \<longrightarrow>
            spawned s = [(''A'', 2), (''B'', 1), (''C'', 1)]
            \<and> sent s = [\<lparr>url = ''A'', body = ba, err = None\<rparr>, \<lparr>url = ''B'', body = bb, err = None\<rparr>]
            \<and> ErrLine e \<in> set (stdout s))
       \<and> (stuck f s \<longrightarrow> closed s)
       \<and> (mainpc s = M114 \<longrightarrow> found_pairs (stdout s) = [(''A'', ba), (''B'', bb)])
       \<and> length sched \<le> 39"
proof -
  have inv: "scen_inv ba bb e s" using assms by (rule scen_inv_run)
  have A: "closed s \<Longrightarrow> \<forall>fr \<in> set (threads s). decremented fr"
    using closed_all_decremented[OF assms(2)] by blast
  have B: "closed s" if "stuck f s"
    using stuck_closed_or_leak[OF assms(2) that] scen_depths[OF inv] by fastforce
  have C: "length sched \<le> 39"
    using run_remaining[OF assms(2)] scen_remaining[OF assms(1)] by simp
  have D: "found_pairs (stdout s) = [(''A'', ba), (''B'', bb)]" if m: "mainpc s = M114"
  proof -
    from run_inv_run[OF assms(2)] m have "closed s" by (simp add: close_inv_def)
    with scen_closed[OF inv] A
    have "sent s = [\<lparr>url = ''A'', body = ba, err = None\<rparr>, \<lparr>url = ''B'', body = bb, err = None\<rparr>]"
      by blast
    with print_inv_run[OF assms(2)] m show ?thesis by (simp add: print_inv_def)
  qed
  from scen_spawned[OF inv] scen_sent[OF inv] scen_closed[OF inv] A B C D show ?thesis
    by blast
qed

text \<open>
  The theorem of C6 for the fetcher \<open>scenario\<close> and the complete run
  \<open>sched_scenario_exit\<close>.
\<close>

theorem C6_witness:
  "scenario_fetcher (fakeFetcher_Fetch scenario) ''a'' ''b'' ''not found: C''
   \<and> closed (the (scenario_run sched_scenario_exit))
   \<and> stuck (fakeFetcher_Fetch scenario) (the (scenario_run sched_scenario_exit))
   \<and> spawned (the (scenario_run sched_scenario_exit)) = [(''A'', 2), (''B'', 1), (''C'', 1)]
   \<and> sent (the (scenario_run sched_scenario_exit))
       = [\<lparr>url = ''A'', body = ''a'', err = None\<rparr>, \<lparr>url = ''B'', body = ''b'', err = None\<rparr>]
   \<and> ErrLine ''not found: C'' \<in> set (stdout (the (scenario_run sched_scenario_exit)))
   \<and> found_pairs (stdout (the (scenario_run sched_scenario_exit))) = [(''A'', ''a''), (''B'', ''b'')]"
proof -
  let ?F = "fakeFetcher_Fetch scenario"
  let ?s = "the (scenario_run sched_scenario_exit)"
  have sc: "scenario_fetcher ?F ''a'' ''b'' ''not found: C''"
    by (simp add: scenario_fetcher_def fakeFetcher_Fetch_def scenario_def fetch_err_def)
  have "scenario_run sched_scenario_exit \<noteq> None" by code_simp
  then have r: "run ?F (Crawl_init ''A'' 2) sched_scenario_exit = Some ?s"
    by (simp add: scenario_run_def)
  have c: "closed ?s" by code_simp
  have st: "stuck ?F ?s" by code_simp
  have m: "mainpc ?s = M114" by code_simp
  from C6_scenario[OF sc r] c st sc m show ?thesis by blast
qed

end
